theory Spec2Isabelle
  imports Complex_Main "HOL-Library.Word" "HOL-Library.Sublist"
begin

section \<open>JavaScript values used by the selection pipeline\<close>

text \<open>
  A JavaScript string is a sequence of UTF-16 code units; \<open>length\<close> counts code units.
  An \<open>Embedding\<close> is a \<open>number[]\<close>; the cache and the pipeline carry it around without
  looking inside, so its elements are kept as mathematical numbers here.
\<close>

type_synonym jsstring = "16 word list"

type_synonym Embedding = "real list"

subsection \<open>The built-in \<open>Map\<close>\<close>

text \<open>
  A JavaScript \<open>Map\<close> iterates in insertion order. \<open>set\<close> on a key that is present replaces
  the value and keeps the key's position; \<open>set\<close> on a new key appends. \<open>delete\<close> removes the
  key. \<open>keys().next().value\<close> is the oldest key, or \<open>undefined\<close> for an empty map.
\<close>

definition Map_get :: "('k \<times> 'v) list \<Rightarrow> 'k \<Rightarrow> 'v option" where
  "Map_get m k = map_of m k"

definition Map_delete :: "('k \<times> 'v) list \<Rightarrow> 'k \<Rightarrow> ('k \<times> 'v) list" where
  "Map_delete m k = filter (\<lambda>p. fst p \<noteq> k) m"

fun Map_set :: "('k \<times> 'v) list \<Rightarrow> 'k \<Rightarrow> 'v \<Rightarrow> ('k \<times> 'v) list" where
  "Map_set [] k v = [(k, v)]"
| "Map_set (p # ps) k v = (if fst p = k then (k, v) # ps else p # Map_set ps k v)"

definition Map_firstKey :: "('k \<times> 'v) list \<Rightarrow> 'k option" where
  "Map_firstKey m = (case m of [] \<Rightarrow> None | p # _ \<Rightarrow> Some (fst p))"

definition Map_size :: "('k \<times> 'v) list \<Rightarrow> nat" where
  "Map_size m = length m"

section \<open>EmbeddingCache (cache.ts)\<close>

datatype KeyType = type_text | type_image

record CacheKey =
  key_type :: KeyType
  key_value :: jsstring

record CacheEntry =
  embedding :: Embedding
  createdAt :: int
  ttl :: real

record CacheOptions =
  opt_maxSize :: "nat option"
  opt_defaultTTL :: "real option"

record EmbeddingCache =
  cache :: "(jsstring \<times> CacheEntry) list"
  maxSize :: nat
  defaultTTL :: real

definition KeyType_string :: "KeyType \<Rightarrow> jsstring" where
  "KeyType_string t =
     (case t of type_text \<Rightarrow> [0x74, 0x65, 0x78, 0x74]
              | type_image \<Rightarrow> [0x69, 0x6D, 0x61, 0x67, 0x65])"

text \<open>\<open>`${key.type}:${key.value}`\<close>\<close>

definition createCacheKey :: "CacheKey \<Rightarrow> jsstring" where
  "createCacheKey key = KeyType_string (key_type key) @ [0x3A] @ key_value key"

text \<open>
  The constructor: \<open>options.maxSize || 1000\<close> and \<open>options.defaultTTL || 3600\<close>; a missing
  option and the falsy value \<open>0\<close> both give the default. The capacity is a number of
  entries, a natural number.
\<close>

definition new_EmbeddingCache :: "CacheOptions \<Rightarrow> EmbeddingCache" where
  "new_EmbeddingCache options =
     \<lparr> cache = [],
       maxSize = (case opt_maxSize options of
                    None \<Rightarrow> 1000 | Some n \<Rightarrow> if n = 0 then 1000 else n),
       defaultTTL = (case opt_defaultTTL options of
                    None \<Rightarrow> 3600 | Some t \<Rightarrow> if t = 0 then 3600 else t) \<rparr>"

text \<open>Age of an entry in seconds at the clock reading \<open>now\<close> (milliseconds).\<close>

definition age :: "int \<Rightarrow> CacheEntry \<Rightarrow> real" where
  "age now entry = real_of_int (now - createdAt entry) / 1000"

text \<open>
  \<open>get\<close>: a miss on an absent key; an expired entry is deleted and reported as a miss;
  otherwise the entry is deleted and set again, which moves it to the end of the map.
  The first argument is the value of \<open>Date.now()\<close>.
\<close>

definition cache_get :: "int \<Rightarrow> CacheKey \<Rightarrow> EmbeddingCache \<Rightarrow> Embedding option \<times> EmbeddingCache" where
  "cache_get now key c =
     (let cacheKey = createCacheKey key in
      case Map_get (cache c) cacheKey of
        None \<Rightarrow> (None, c)
      | Some entry \<Rightarrow>
          if age now entry > ttl entry
          then (None, c\<lparr>cache := Map_delete (cache c) cacheKey\<rparr>)
          else (Some (embedding entry),
                c\<lparr>cache := Map_set (Map_delete (cache c) cacheKey) cacheKey entry\<rparr>))"

text \<open>
  \<open>set\<close>: when the map is at or over \<open>maxSize\<close> the first key is deleted (if it is a
  truthy string), whether or not the key being stored is already present; then the new
  entry is stored with \<open>Map.set\<close>. \<open>ttl ?? this.defaultTTL\<close> takes the default for a
  missing argument only.
\<close>

definition cache_set :: "int \<Rightarrow> CacheKey \<Rightarrow> Embedding \<Rightarrow> real option \<Rightarrow> EmbeddingCache \<Rightarrow> EmbeddingCache" where
  "cache_set now key emb ttl_arg c =
     (let cacheKey = createCacheKey key;
          m = (if Map_size (cache c) \<ge> maxSize c
               then (case Map_firstKey (cache c) of
                       None \<Rightarrow> cache c
                     | Some firstKey \<Rightarrow>
                         if firstKey \<noteq> [] then Map_delete (cache c) firstKey else cache c)
               else cache c);
          entry = \<lparr> embedding = emb, createdAt = now,
                    ttl = (case ttl_arg of None \<Rightarrow> defaultTTL c | Some t \<Rightarrow> t) \<rparr>
      in c\<lparr>cache := Map_set m cacheKey entry\<rparr>)"

definition cache_delete :: "CacheKey \<Rightarrow> EmbeddingCache \<Rightarrow> bool \<times> EmbeddingCache" where
  "cache_delete key c =
     (let cacheKey = createCacheKey key in
      (Map_get (cache c) cacheKey \<noteq> None, c\<lparr>cache := Map_delete (cache c) cacheKey\<rparr>))"

definition cache_clear :: "EmbeddingCache \<Rightarrow> EmbeddingCache" where
  "cache_clear c = c\<lparr>cache := []\<rparr>"

definition cache_size :: "EmbeddingCache \<Rightarrow> nat" where
  "cache_size c = Map_size (cache c)"

text \<open>A call of one of the public methods, with the clock reading it sees.\<close>

datatype CacheOp =
    OpGet int CacheKey
  | OpSet int CacheKey Embedding "real option"
  | OpDelete CacheKey
  | OpClear

fun apply_op :: "CacheOp \<Rightarrow> EmbeddingCache \<Rightarrow> EmbeddingCache" where
  "apply_op (OpGet now key) c = snd (cache_get now key c)"
| "apply_op (OpSet now key emb ttl_arg) c = cache_set now key emb ttl_arg c"
| "apply_op (OpDelete key) c = snd (cache_delete key c)"
| "apply_op OpClear c = cache_clear c"

definition run_ops :: "CacheOp list \<Rightarrow> EmbeddingCache \<Rightarrow> EmbeddingCache" where
  "run_ops ops c = fold apply_op ops c"

text \<open>The states a cache object can be in: built by the constructor, then any calls.\<close>

inductive reachable :: "EmbeddingCache \<Rightarrow> bool" where
  reachable_new: "reachable (new_EmbeddingCache options)"
| reachable_op: "reachable c \<Longrightarrow> reachable (apply_op op c)"

text \<open>What holds of every such state.\<close>

definition cache_inv :: "EmbeddingCache \<Rightarrow> bool" where
  "cache_inv c \<longleftrightarrow>
     distinct (map fst (cache c)) \<and> [] \<notin> fst ` set (cache c) \<and>
     length (cache c) \<le> maxSize c \<and> 1 \<le> maxSize c"

text \<open>A run of \<open>set\<close> calls, each given as clock reading, key, vector and optional TTL.\<close>

type_synonym SetCall = "int \<times> CacheKey \<times> Embedding \<times> real option"

definition set_all :: "SetCall list \<Rightarrow> EmbeddingCache \<Rightarrow> EmbeddingCache" where
  "set_all calls c = run_ops (map (\<lambda>(now, key, emb, t). OpSet now key emb t) calls) c"

definition call_key :: "SetCall \<Rightarrow> jsstring" where
  "call_key call = (case call of (now, key, emb, t) \<Rightarrow> createCacheKey key)"

text \<open>The map entry a \<open>set\<close> call writes, given the cache's default TTL.\<close>

definition call_entry :: "real \<Rightarrow> SetCall \<Rightarrow> jsstring \<times> CacheEntry" where
  "call_entry dflt call =
     (case call of (now, key, emb, t) \<Rightarrow>
        (createCacheKey key,
         \<lparr> embedding = emb, createdAt = now,
           ttl = (case t of None \<Rightarrow> dflt | Some x \<Rightarrow> x) \<rparr>))"

text \<open>Concrete keys and caches used to run the operations on explicit inputs.\<close>

definition image_key :: "16 word \<Rightarrow> CacheKey" where
  "image_key u = \<lparr> key_type = type_image, key_value = [u] \<rparr>"

definition cache_ab :: "nat \<Rightarrow> EmbeddingCache" where
  "cache_ab n =
     run_ops [OpSet 0 (image_key 0x61) [1] None, OpSet 0 (image_key 0x62) [2] None]
       (new_EmbeddingCache \<lparr> opt_maxSize = Some n, opt_defaultTTL = None \<rparr>)"

section \<open>String operations of the matcher and the orchestrator\<close>

text \<open>An ASCII literal of the source as code units.\<close>

definition ascii :: "string \<Rightarrow> jsstring" where
  "ascii s = map (\<lambda>ch. of_nat (of_char ch)) s"

text \<open>\<open>s.includes(t)\<close>: \<open>t\<close> occurs in \<open>s\<close> as a contiguous run; \<open>s.startsWith(t)\<close>.\<close>

definition js_includes :: "jsstring \<Rightarrow> jsstring \<Rightarrow> bool" where
  "js_includes s t = sublist t s"

definition startsWith :: "jsstring \<Rightarrow> jsstring \<Rightarrow> bool" where
  "startsWith s t = prefix t s"

text \<open>The code units matched by \<open>\s\<close> in a regular expression.\<close>

definition isWhiteSpace :: "16 word \<Rightarrow> bool" where
  "isWhiteSpace u \<longleftrightarrow>
     u \<in> {0x09, 0x0A, 0x0B, 0x0C, 0x0D, 0x20, 0xA0, 0x1680, 0x2028, 0x2029, 0x202F,
          0x205F, 0x3000, 0xFEFF} \<or> (0x2000 \<le> u \<and> u \<le> 0x200A)"

text \<open>
  \<open>s.split(/\s+/)\<close>: the pieces between maximal runs of white space. A run at the start
  or at the end of the string gives an empty first or last piece, and a string without
  white space (the empty string too) gives itself as the only piece.
\<close>

function split_ws :: "jsstring \<Rightarrow> jsstring \<Rightarrow> jsstring list" where
  "split_ws cur [] = [cur]"
| "split_ws cur (u # us) =
     (if isWhiteSpace u then cur # split_ws [] (dropWhile isWhiteSpace us)
      else split_ws (cur @ [u]) us)"
  by pat_completeness auto
termination
  by (relation "measure (\<lambda>(cur, s). length s)") (auto simp: length_dropWhile_le less_Suc_eq_le)

definition split_whitespace :: "jsstring \<Rightarrow> jsstring list" where
  "split_whitespace s = split_ws [] s"

text \<open>
  \<open>toLowerCase\<close> follows the Unicode case tables, which are not part of the repository.
  The matcher and the orchestrator take it as a parameter. The function below is
  \<open>toLowerCase\<close> on strings whose cased letters are Basic Latin or Latin-1; code units of
  scripts without case (Hangul among them) are unchanged, as in JavaScript.
\<close>

definition toLowerCase_latin1 :: "jsstring \<Rightarrow> jsstring" where
  "toLowerCase_latin1 s =
     map (\<lambda>u. if (0x41 \<le> u \<and> u \<le> 0x5A) \<or> (0xC0 \<le> u \<and> u \<le> 0xDE \<and> u \<noteq> 0xD7)
              then u + 0x20 else u) s"

section \<open>EntityMatcher: selectBestMatch (folder-matcher.js)\<close>

record FolderInfo =
  folder_id :: jsstring
  folder_name :: jsstring

text \<open>
  The score given to one folder inside \<open>selectBestMatch\<close>. The branches are tried in the
  order of the source; the word count is the number of words of the character name
  (each occurrence counted) that are among the words of the folder name.
\<close>

definition matchScore :: "(jsstring \<Rightarrow> jsstring) \<Rightarrow> jsstring \<Rightarrow> FolderInfo \<Rightarrow> int" where
  "matchScore toLowerCase characterName folder =
     (let lowerCharName = toLowerCase characterName;
          lowerFolderName = toLowerCase (folder_name folder);
          score =
            (if lowerFolderName = lowerCharName then 1000
             else if js_includes lowerFolderName lowerCharName then 900
             else if startsWith lowerFolderName lowerCharName then 850
             else
               (let charWords = split_whitespace lowerCharName;
                    folderWords = split_whitespace lowerFolderName;
                    matchedWords = filter (\<lambda>word. word \<in> set folderWords) charWords
                in 700 + int (length matchedWords) * 50));
          lengthDiff = \<bar>int (length lowerFolderName) - int (length lowerCharName)\<bar>
      in score - lengthDiff * 2)"

text \<open>
  \<open>selectBestMatch\<close>: \<open>null\<close> for a missing or empty array; otherwise every folder is
  scored, the scored list is sorted with the comparator \<open>b.score - a.score\<close> and the folder
  of the first element is returned. \<open>Array.prototype.sort\<close> is stable, so it is the stable
  insertion sort on the negated score. The first argument \<open>None\<close> is a \<open>null\<close> array.
\<close>

definition selectBestMatch ::
    "(jsstring \<Rightarrow> jsstring) \<Rightarrow> FolderInfo list option \<Rightarrow> jsstring \<Rightarrow> FolderInfo option" where
  "selectBestMatch toLowerCase folders characterName =
     (case folders of
        None \<Rightarrow> None
      | Some fs \<Rightarrow>
          if length fs = 0 then None
          else
            (let scored = map (\<lambda>folder. (folder, matchScore toLowerCase characterName folder)) fs;
                 sorted = sort_key (\<lambda>s. - snd s) scored
             in case sorted of [] \<Rightarrow> None | s # _ \<Rightarrow> Some (fst s)))"

text \<open>The names of the example: U+B808 U+C774, and the same followed by a space and three more syllables.\<close>

definition name_rei :: jsstring where
  "name_rei = [0xB808, 0xC774]"

definition name_rei_stella :: jsstring where
  "name_rei_stella = [0xB808, 0xC774, 0x20, 0xC2A4, 0xD154, 0xB77C]"



text \<open>A folder whose name is 400 times the letter b.\<close>

definition folder_far :: FolderInfo where
  "folder_far = \<lparr> folder_id = ascii ''f3'', folder_name = replicate 400 0x62 \<rparr>"

text \<open>A folder whose name is 500 times the letter b.\<close>

definition folder_farther :: FolderInfo where
  "folder_farther = \<lparr> folder_id = ascii ''f4'', folder_name = replicate 500 0x62 \<rparr>"








section \<open>The selection orchestrator (unified-select route)\<close>

text \<open>
  The request body and the Stage 1 answer are parsed JSON. A property that may be missing
  is an \<open>option\<close>; \<open>x || d\<close> on a string takes \<open>d\<close> for a missing and for an empty \<open>x\<close>.
\<close>

datatype Tag = TagObject jsstring | TagString jsstring

record Image =
  image_id :: jsstring
  tags :: "Tag list option"
  nsfwLevel :: jsstring
  imageUrl :: "jsstring option"
  thumbnail :: "jsstring option"

record CharacterFolder =
  cf_id :: jsstring
  cf_name :: jsstring
  images :: "Image list option"
  matchedCharacterName :: "jsstring option"

record SceneAnalysis =
  characters :: "jsstring list option"
  sceneSummary :: "jsstring option"
  clipQuery :: "jsstring option"
  appropriateNsfwLevel :: "jsstring option"
  reasoning :: "jsstring option"

definition truthy :: "jsstring option \<Rightarrow> bool" where
  "truthy v = (case v of None \<Rightarrow> False | Some s \<Rightarrow> s \<noteq> [])"

definition or_else :: "jsstring option \<Rightarrow> jsstring \<Rightarrow> jsstring" where
  "or_else v d = (case v of None \<Rightarrow> d | Some s \<Rightarrow> if s = [] then d else s)"

text \<open>\<open>folder.images || []\<close>\<close>

definition imagesOf :: "CharacterFolder \<Rightarrow> Image list" where
  "imagesOf folder = (case images folder of None \<Rightarrow> [] | Some imgs \<Rightarrow> imgs)"

definition str_general :: jsstring where "str_general = ascii ''general''"
definition str_sensitive :: jsstring where "str_sensitive = ascii ''sensitive''"
definition str_questionable :: jsstring where "str_questionable = ascii ''questionable''"
definition str_explicit :: jsstring where "str_explicit = ascii ''explicit''"

text \<open>\<open>nsfwAnalysis.appropriateNsfwLevel || 'general'\<close> and \<open>nsfwAnalysis.characters || []\<close>\<close>

definition determinedLevel :: "SceneAnalysis \<Rightarrow> jsstring" where
  "determinedLevel nsfwAnalysis = or_else (appropriateNsfwLevel nsfwAnalysis) str_general"

definition extractedCharacters :: "SceneAnalysis \<Rightarrow> jsstring list" where
  "extractedCharacters nsfwAnalysis =
     (case characters nsfwAnalysis of None \<Rightarrow> [] | Some cs \<Rightarrow> cs)"

subsection \<open>Stage 2: matching and the sensitivity gate\<close>

text \<open>
  2-1. A folder is kept when \<open>find\<close> gives a character name whose lower-cased form equals,
  is contained in, or contains the lower-cased folder name; the name found is recorded.
  An empty name found is falsy, and the folder is dropped.
\<close>

definition matchFolder ::
    "(jsstring \<Rightarrow> jsstring) \<Rightarrow> jsstring list \<Rightarrow> CharacterFolder \<Rightarrow> CharacterFolder option" where
  "matchFolder toLowerCase chars folder =
     (case find (\<lambda>charName.
              (let folderNameLower = toLowerCase (cf_name folder);
                   charNameLower = toLowerCase charName
               in folderNameLower = charNameLower \<or>
                  js_includes folderNameLower charNameLower \<or>
                  js_includes charNameLower folderNameLower)) chars of
        None \<Rightarrow> None
      | Some matchedChar \<Rightarrow>
          if matchedChar = [] then None
          else Some (folder\<lparr>matchedCharacterName := Some matchedChar\<rparr>))"

definition matchedFolders ::
    "(jsstring \<Rightarrow> jsstring) \<Rightarrow> jsstring list \<Rightarrow> CharacterFolder list \<Rightarrow> CharacterFolder list" where
  "matchedFolders toLowerCase chars characterFolders =
     List.map_filter (matchFolder toLowerCase chars) characterFolders"

text \<open>2-2. The levels allowed for the determined level, and the filter on one folder.\<close>

definition allowedLevels :: "jsstring \<Rightarrow> jsstring list" where
  "allowedLevels level =
     (if level = str_general \<or> level = str_sensitive
      then [str_general, str_sensitive] else [level])"

definition filterFolder :: "jsstring \<Rightarrow> CharacterFolder \<Rightarrow> CharacterFolder" where
  "filterFolder level folder =
     (let filteredImages = filter (\<lambda>img. nsfwLevel img \<in> set (allowedLevels level)) (imagesOf folder)
      in folder\<lparr>images := Some filteredImages\<rparr>)"

definition filteredCharacterFolders :: "jsstring \<Rightarrow> CharacterFolder list \<Rightarrow> CharacterFolder list" where
  "filteredCharacterFolders level matched = map (filterFolder level) matched"

definition stage2 ::
    "(jsstring \<Rightarrow> jsstring) \<Rightarrow> SceneAnalysis \<Rightarrow> CharacterFolder list \<Rightarrow> CharacterFolder list" where
  "stage2 toLowerCase nsfwAnalysis characterFolders =
     filteredCharacterFolders (determinedLevel nsfwAnalysis)
       (matchedFolders toLowerCase (extractedCharacters nsfwAnalysis) characterFolders)"

text \<open>
  The allowed set as the specification words it: general and sensitive share the bucket
  of both; questionable and explicit are each a bucket of their own.
\<close>

definition spec_allowed_set :: "jsstring \<Rightarrow> jsstring set" where
  "spec_allowed_set level =
     (if level = str_general \<or> level = str_sensitive then {str_general, str_sensitive}
      else if level = str_questionable then {str_questionable}
      else if level = str_explicit then {str_explicit}
      else {})"

text \<open>A gallery with one image of each of three labels, and a Stage 1 answer naming it.\<close>

definition mk_image :: "jsstring \<Rightarrow> jsstring \<Rightarrow> Image" where
  "mk_image i level =
     \<lparr> image_id = i, tags = Some [], nsfwLevel = level,
       imageUrl = Some (ascii ''https://img/'' @ i), thumbnail = None \<rparr>"

definition gallery_mixed :: CharacterFolder where
  "gallery_mixed =
     \<lparr> cf_id = ascii ''g1'', cf_name = name_rei,
       images = Some [mk_image (ascii ''1'') str_general, mk_image (ascii ''2'') str_sensitive,
                      mk_image (ascii ''3'') str_explicit],
       matchedCharacterName = None \<rparr>"

definition analysis_general :: SceneAnalysis where
  "analysis_general =
     \<lparr> characters = Some [name_rei], sceneSummary = Some (ascii ''a walk in the park''),
       clipQuery = Some (ascii ''two people walking''),
       appropriateNsfwLevel = Some str_general, reasoning = Some (ascii ''daily life'') \<rparr>"

subsection \<open>SimilarityRanker (similarity.ts)\<close>

text \<open>
  A JavaScript number that a similarity computation may return: \<open>NaN\<close>, or a number
  that comparisons order. The two \<open>Error\<close>s thrown in similarity.ts.
\<close>

datatype number = NaN | Num real

datatype error = DimensionsMustMatch | LengthsMustMatch

text \<open>
  \<open>computeMagnitude\<close>, \<open>computeDotProduct\<close> and \<open>computeCosineSimilarity\<close> with exact
  arithmetic in place of IEEE doubles. The pipeline below takes the similarity function
  as a parameter, so that what is proved of it does not depend on rounding; these exact
  versions are used to run it on vectors of zeros and ones, where doubles are exact.
\<close>

definition computeMagnitude :: "Embedding \<Rightarrow> real" where
  "computeMagnitude vector = sqrt (foldl (\<lambda>sum val. sum + val * val) 0 vector)"

definition computeDotProduct :: "Embedding \<Rightarrow> Embedding \<Rightarrow> error + real" where
  "computeDotProduct vec1 vec2 =
     (if length vec1 \<noteq> length vec2 then Inl DimensionsMustMatch
      else Inr (foldl (\<lambda>sum (val, other). sum + val * other) 0 (zip vec1 vec2)))"

definition computeCosineSimilarity :: "Embedding \<Rightarrow> Embedding \<Rightarrow> error + number" where
  "computeCosineSimilarity embedding1 embedding2 =
     (if length embedding1 \<noteq> length embedding2 then Inl DimensionsMustMatch
      else
        (let mag1 = computeMagnitude embedding1;
             mag2 = computeMagnitude embedding2
         in if mag1 = 0 \<or> mag2 = 0 then Inr (Num 0)
            else
              (case computeDotProduct embedding1 embedding2 of
                 Inl e \<Rightarrow> Inl e
               | Inr dotProduct \<Rightarrow> Inr (Num (max 0 (dotProduct / (mag1 * mag2)))))))"

text \<open>
  \<open>sortBySimilarity\<close>: pairs each item with its score and sorts with the comparator
  \<open>b.score - a.score\<close> (stable, descending); throws when the lengths differ.
\<close>

definition sortBySimilarity :: "'a list \<Rightarrow> real list \<Rightarrow> error + ('a \<times> real) list" where
  "sortBySimilarity items scores =
     (if length items \<noteq> length scores then Inl LengthsMustMatch
      else Inr (sort_key (\<lambda>p. - snd p) (zip items scores)))"

subsection \<open>ClipFilter.filterImagesBySimilarity (filter.ts)\<close>

record ImageSimilarity =
  imageId :: jsstring
  similarity :: real
  image :: Image

record ClipFilterResult =
  success :: bool
  topImages :: "ImageSimilarity list"
  totalProcessed :: nat

record FilterOptions =
  topK :: "nat option"
  minSimilarity :: "real option"

text \<open>\<open>image.imageUrl || image.thumbnail\<close>, and \<open>None\<close> when the result is falsy.\<close>

definition imageUrlOf :: "Image \<Rightarrow> jsstring option" where
  "imageUrlOf img =
     (if truthy (imageUrl img) then imageUrl img
      else if truthy (thumbnail img) then thumbnail img else None)"

text \<open>
  The private methods \<open>getTextEmbedding\<close> and \<open>getImageEmbedding\<close> answer from the shared
  cache or from the embedding service, and under \<open>Promise.all\<close> the folders' tasks
  interleave at every \<open>await\<close>. What each call returns (a vector, or \<open>null\<close>) is therefore
  an input here: \<open>getImageEmbedding i url\<close> is the outcome of the call for the image at
  position \<open>i\<close>. The loop over the images: an image without URL, without embedding, or
  whose similarity is \<open>NaN\<close> or below \<open>minSimilarity\<close> is skipped; an error thrown by the
  similarity function leaves the loop.
\<close>

fun similarity_loop ::
    "(Embedding \<Rightarrow> Embedding \<Rightarrow> error + number) \<Rightarrow> (nat \<Rightarrow> jsstring \<Rightarrow> Embedding option) \<Rightarrow>
     Embedding \<Rightarrow> real \<Rightarrow> nat \<Rightarrow> Image list \<Rightarrow> ImageSimilarity list \<Rightarrow>
     error + ImageSimilarity list" where
  "similarity_loop cosine getImageEmbedding textEmbedding minSim i [] similarities =
     Inr similarities"
| "similarity_loop cosine getImageEmbedding textEmbedding minSim i (img # rest) similarities =
     (case imageUrlOf img of
        None \<Rightarrow>
          similarity_loop cosine getImageEmbedding textEmbedding minSim (Suc i) rest similarities
      | Some url \<Rightarrow>
          (case getImageEmbedding i url of
             None \<Rightarrow>
               similarity_loop cosine getImageEmbedding textEmbedding minSim (Suc i) rest similarities
           | Some imageEmbedding \<Rightarrow>
               (case cosine textEmbedding imageEmbedding of
                  Inl e \<Rightarrow> Inl e
                | Inr NaN \<Rightarrow>
                    similarity_loop cosine getImageEmbedding textEmbedding minSim (Suc i) rest
                      similarities
                | Inr (Num s) \<Rightarrow>
                    if s \<ge> minSim
                    then similarity_loop cosine getImageEmbedding textEmbedding minSim (Suc i) rest
                           (similarities @ [\<lparr> imageId = image_id img, similarity = s, image = img \<rparr>])
                    else similarity_loop cosine getImageEmbedding textEmbedding minSim (Suc i) rest
                           similarities)))"

definition clip_failure :: ClipFilterResult where
  "clip_failure = \<lparr> success = False, topImages = [], totalProcessed = 0 \<rparr>"

text \<open>
  The method: defaults \<open>topK = 10\<close> and \<open>minSimilarity = 0.0\<close>; no text embedding, or any
  error caught by the \<open>try\<close>, gives the failure result; otherwise the scored images are
  sorted and the first \<open>topK\<close> returned. (The \<open>cacheHits\<close> counter only reads the cache and
  is not used by the caller; it is left out.)
\<close>

definition filterImagesBySimilarity ::
    "(Embedding \<Rightarrow> Embedding \<Rightarrow> error + number) \<Rightarrow> (jsstring \<Rightarrow> Embedding option) \<Rightarrow>
     (nat \<Rightarrow> jsstring \<Rightarrow> Embedding option) \<Rightarrow> jsstring \<Rightarrow> Image list \<Rightarrow> FilterOptions \<Rightarrow>
     ClipFilterResult" where
  "filterImagesBySimilarity cosine getTextEmbedding getImageEmbedding sceneText imgs options =
     (let k = (case topK options of None \<Rightarrow> 10 | Some n \<Rightarrow> n);
          minSim = (case minSimilarity options of None \<Rightarrow> 0 | Some m \<Rightarrow> m)
      in case getTextEmbedding sceneText of
           None \<Rightarrow> clip_failure
         | Some textEmbedding \<Rightarrow>
             (case similarity_loop cosine getImageEmbedding textEmbedding minSim 0 imgs [] of
                Inl e \<Rightarrow> clip_failure
              | Inr similarities \<Rightarrow>
                  (case sortBySimilarity (map image similarities) (map similarity similarities) of
                     Inl e \<Rightarrow> clip_failure
                   | Inr sortedItems \<Rightarrow>
                       \<lparr> success = True,
                         topImages = map (\<lambda>(item, score).
                                       \<lparr> imageId = image_id item, similarity = score, image = item \<rparr>)
                                     (take k sortedItems),
                         totalProcessed = length similarities \<rparr>)))"

subsection \<open>Stage 2.5: similarity narrowing\<close>

record ProcessEnv =
  CLIP_PROVIDER :: "jsstring option"
  LOCAL_CLIP_ENDPOINT :: "jsstring option"
  REPLICATE_API_KEY :: "jsstring option"

definition clipEnabled :: "ProcessEnv \<Rightarrow> bool" where
  "clipEnabled env =
     (let clipProvider = or_else (CLIP_PROVIDER env) (ascii ''local'');
          clipEndpoint = or_else (LOCAL_CLIP_ENDPOINT env) (ascii ''http://localhost:8000'');
          clipApiKey = or_else (REPLICATE_API_KEY env) []
      in (clipProvider = ascii ''local'' \<and> clipEndpoint \<noteq> []) \<or>
         (clipProvider = ascii ''replicate'' \<and> clipApiKey \<noteq> []) \<or>
         (clipProvider = ascii ''openai'' \<and> clipApiKey \<noteq> []))"

text \<open>The outcomes of the embedding calls made for the folder at position \<open>k\<close>.\<close>

record EmbeddingOutcomes =
  textOutcome :: "nat \<Rightarrow> jsstring \<Rightarrow> Embedding option"
  imageOutcome :: "nat \<Rightarrow> nat \<Rightarrow> jsstring \<Rightarrow> Embedding option"

text \<open>\<open>nsfwAnalysis.clipQuery || nsfwAnalysis.sceneSummary\<close>\<close>

definition clipQueryOf :: "SceneAnalysis \<Rightarrow> jsstring" where
  "clipQueryOf nsfwAnalysis =
     or_else (clipQuery nsfwAnalysis) (or_else (sceneSummary nsfwAnalysis) [])"

text \<open>
  One folder's task: at most 10 images skip the filter; otherwise the filter runs with
  \<open>topK: 10, minSimilarity: 0.0\<close>, and its images replace the folder's only when it
  succeeded with at least one image.
\<close>

definition clipFilterFolder ::
    "(Embedding \<Rightarrow> Embedding \<Rightarrow> error + number) \<Rightarrow> EmbeddingOutcomes \<Rightarrow> SceneAnalysis \<Rightarrow>
     nat \<Rightarrow> CharacterFolder \<Rightarrow> CharacterFolder" where
  "clipFilterFolder cosine outcomes nsfwAnalysis k folder =
     (let imgs = imagesOf folder
      in if length imgs \<le> 10 then folder
         else
           (let clipResult =
                  filterImagesBySimilarity cosine (textOutcome outcomes k) (imageOutcome outcomes k)
                    (clipQueryOf nsfwAnalysis) imgs \<lparr> topK = Some 10, minSimilarity = Some 0 \<rparr>
            in if success clipResult \<and> length (topImages clipResult) > 0
               then folder\<lparr>images := Some (map image (topImages clipResult))\<rparr>
               else folder))"

text \<open>
  The stage runs when a provider is configured and a query text is there; otherwise the
  folders of Stage 2 go on unchanged. (With a configured provider the client factory does
  not throw, and the filter catches its own errors, so the \<open>catch\<close> around the stage is
  not reached.)
\<close>

definition stage2_5 ::
    "ProcessEnv \<Rightarrow> (Embedding \<Rightarrow> Embedding \<Rightarrow> error + number) \<Rightarrow> EmbeddingOutcomes \<Rightarrow>
     SceneAnalysis \<Rightarrow> CharacterFolder list \<Rightarrow> CharacterFolder list" where
  "stage2_5 env cosine outcomes nsfwAnalysis filtered =
     (if clipEnabled env \<and> (truthy (clipQuery nsfwAnalysis) \<or> truthy (sceneSummary nsfwAnalysis))
      then map (\<lambda>(k, folder). clipFilterFolder cosine outcomes nsfwAnalysis k folder)
             (enumerate 0 filtered)
      else filtered)"

text \<open>
  The similarity the loop computes for the image at position \<open>j\<close> (0 for an image it
  skips), and the images of a gallery paired with their similarities.
\<close>

definition image_score ::
    "(Embedding \<Rightarrow> Embedding \<Rightarrow> error + number) \<Rightarrow> (nat \<Rightarrow> jsstring \<Rightarrow> Embedding option) \<Rightarrow>
     Embedding \<Rightarrow> nat \<Rightarrow> Image \<Rightarrow> real" where
  "image_score cosine getImageEmbedding textEmbedding j img =
     (case imageUrlOf img of
        None \<Rightarrow> 0
      | Some url \<Rightarrow>
          (case getImageEmbedding j url of
             None \<Rightarrow> 0
           | Some e \<Rightarrow>
               (case cosine textEmbedding e of
                  Inr (Num s) \<Rightarrow> s
                | _ \<Rightarrow> 0)))"

definition scored_images ::
    "(Embedding \<Rightarrow> Embedding \<Rightarrow> error + number) \<Rightarrow> (nat \<Rightarrow> jsstring \<Rightarrow> Embedding option) \<Rightarrow>
     Embedding \<Rightarrow> nat \<Rightarrow> Image list \<Rightarrow> (Image \<times> real) list" where
  "scored_images cosine getImageEmbedding textEmbedding i imgs =
     map (\<lambda>(j, img). (img, image_score cosine getImageEmbedding textEmbedding j img))
       (enumerate i imgs)"

text \<open>An image is scored when it has a URL, an embedding, and a similarity at or above the minimum.\<close>

definition image_scored ::
    "(Embedding \<Rightarrow> Embedding \<Rightarrow> error + number) \<Rightarrow> (nat \<Rightarrow> jsstring \<Rightarrow> Embedding option) \<Rightarrow>
     Embedding \<Rightarrow> real \<Rightarrow> nat \<Rightarrow> Image \<Rightarrow> bool" where
  "image_scored cosine getImageEmbedding textEmbedding minSim j img =
     (case imageUrlOf img of
        None \<Rightarrow> False
      | Some url \<Rightarrow>
          (case getImageEmbedding j url of
             None \<Rightarrow> False
           | Some e \<Rightarrow>
               (case cosine textEmbedding e of
                  Inr (Num s) \<Rightarrow> s \<ge> minSim
                | _ \<Rightarrow> False)))"

text \<open>Galleries and configurations to run the stage on.\<close>

definition numbered_images :: "nat list \<Rightarrow> Image list" where
  "numbered_images ns = map (\<lambda>n. mk_image [0x30 + of_nat n] str_general) ns"

definition gallery_11 :: CharacterFolder where
  "gallery_11 =
     \<lparr> cf_id = ascii ''g2'', cf_name = name_rei,
       images = Some (numbered_images [0, 1, 2, 3, 4, 5, 6, 7, 8, 9, 10]),
       matchedCharacterName = Some name_rei \<rparr>"

definition gallery_15 :: CharacterFolder where
  "gallery_15 =
     \<lparr> cf_id = ascii ''g5'', cf_name = name_rei,
       images = Some (numbered_images [0, 1, 2, 3, 4, 5, 6, 7, 8, 9, 10, 11, 12, 13, 14]),
       matchedCharacterName = Some name_rei \<rparr>"

definition gallery_5 :: CharacterFolder where
  "gallery_5 =
     \<lparr> cf_id = ascii ''g6'', cf_name = name_rei_stella,
       images = Some (numbered_images [0, 1, 2, 3, 4]),
       matchedCharacterName = Some name_rei_stella \<rparr>"

definition no_url_image :: "nat \<Rightarrow> Image" where
  "no_url_image n =
     \<lparr> image_id = [0x30 + of_nat n], tags = Some [], nsfwLevel = str_general,
       imageUrl = None, thumbnail = None \<rparr>"

definition gallery_11_two_without_url :: CharacterFolder where
  "gallery_11_two_without_url =
     \<lparr> cf_id = ascii ''g3'', cf_name = name_rei,
       images = Some (numbered_images [0, 1, 2, 3, 4, 5, 6, 7, 8] @ [no_url_image 9, no_url_image 10]),
       matchedCharacterName = Some name_rei \<rparr>"

definition env_default :: ProcessEnv where
  "env_default = \<lparr> CLIP_PROVIDER = None, LOCAL_CLIP_ENDPOINT = None, REPLICATE_API_KEY = None \<rparr>"

definition env_replicate_no_key :: ProcessEnv where
  "env_replicate_no_key =
     \<lparr> CLIP_PROVIDER = Some (ascii ''replicate''), LOCAL_CLIP_ENDPOINT = None,
       REPLICATE_API_KEY = None \<rparr>"

text \<open>A Stage 1 answer with an empty \<open>clipQuery\<close> and no \<open>sceneSummary\<close>.\<close>

definition analysis_no_query :: SceneAnalysis where
  "analysis_no_query =
     \<lparr> characters = Some [name_rei], sceneSummary = None, clipQuery = Some [],
       appropriateNsfwLevel = Some str_general, reasoning = None \<rparr>"

text \<open>
  Every call returns a vector: the text gives \<open>[1, 0]\<close>, the image at an even position
  \<open>[1, 0]\<close> and at an odd position \<open>[0, 1]\<close>; and the same with image vectors of
  another dimension.
\<close>

definition outcomes_unit :: EmbeddingOutcomes where
  "outcomes_unit =
     \<lparr> textOutcome = (\<lambda>k s. Some [1, 0]),
       imageOutcome = (\<lambda>k i url. Some (if even i then [1, 0] else [0, 1])) \<rparr>"

definition outcomes_other_dimension :: EmbeddingOutcomes where
  "outcomes_other_dimension =
     \<lparr> textOutcome = (\<lambda>k s. Some [1, 0]),
       imageOutcome = (\<lambda>k i url. Some [1, 0, 0]) \<rparr>"

text \<open>The scored images of a gallery in the order in which the stage ranks them.\<close>

definition ranked ::
    "(Embedding \<Rightarrow> Embedding \<Rightarrow> error + number) \<Rightarrow> (nat \<Rightarrow> jsstring \<Rightarrow> Embedding option) \<Rightarrow>
     Embedding \<Rightarrow> Image list \<Rightarrow> (Image \<times> real) list" where
  "ranked cosine getImageEmbedding textEmbedding imgs =
     sort_key (\<lambda>p. - snd p) (scored_images cosine getImageEmbedding textEmbedding 0 imgs)"

subsection \<open>similarity.ts in double arithmetic\<close>










subsection \<open>Stage 3: the prompt for the final selection\<close>

text \<open>A number and a possibly missing property inside a template literal; \<open>Array.join\<close>.\<close>

function decimal :: "nat \<Rightarrow> jsstring" where
  "decimal n = (if n < 10 then [0x30 + of_nat n]
                else decimal (n div 10) @ [0x30 + of_nat (n mod 10)])"
  by pat_completeness auto
termination
  by (relation "measure id") auto

declare decimal.simps [simp del]

definition template :: "jsstring option \<Rightarrow> jsstring" where
  "template v = (case v of None \<Rightarrow> ascii ''undefined'' | Some s \<Rightarrow> s)"

fun js_join :: "jsstring \<Rightarrow> jsstring list \<Rightarrow> jsstring" where
  "js_join sep [] = []"
| "js_join sep [x] = x"
| "js_join sep (x # y # ys) = x @ sep @ js_join sep (y # ys)"

definition nl :: jsstring where
  "nl = [0x0A]"

definition tagName :: "Tag \<Rightarrow> jsstring" where
  "tagName t = (case t of TagObject n \<Rightarrow> n | TagString s \<Rightarrow> s)"

definition imageText :: "nat \<times> Image \<Rightarrow> jsstring" where
  "imageText p =
     (case p of (imgIdx, img) \<Rightarrow>
        ascii ''    Image '' @ decimal (imgIdx + 1) @ ascii '' (ID: '' @ image_id img @ ascii ''):'' @ nl @
        ascii ''      Tags: '' @
        js_join (ascii '', '') (map tagName (case tags img of None \<Rightarrow> [] | Some ts \<Rightarrow> ts)))"

text \<open>The block of one folder: its header, its image count, and one entry for each image.\<close>

definition folderText :: "CharacterFolder \<Rightarrow> jsstring" where
  \<open>folderText folder =
     (let imagesText = js_join (nl @ nl) (map imageText (enumerate 0 (imagesOf folder)))
      in ascii ''Character: "'' @ template (matchedCharacterName folder) @
         ascii ''" (Folder: "'' @ cf_name folder @ ascii ''")'' @ nl @
         ascii ''  Total Images: '' @ decimal (length (imagesOf folder)) @ nl @ nl @
         imagesText)\<close>

definition prompt_task :: jsstring where
  \<open>prompt_task = js_join nl
     [ascii ''## YOUR TASK:'',
      [],
      ascii ''For EACH character above, select ONE best image based on:'',
      ascii ''- Scene context and what this character is doing'',
      ascii ''- Mood and atmosphere'',
      ascii ''- Visual tags matching the scene'',
      [],
      ascii ''## OUTPUT FORMAT:'',
      ascii ''Return JSON:'',
      ascii ''{'',
      ascii ''  "characters": ['',
      ascii ''    {'',
      ascii ''      "name": "character name",'',
      ascii ''      "folderName": "folder name",'',
      ascii ''      "selectedImageId": "image ID",'',
      ascii ''      "selectedScore": 85,'',
      ascii ''      "selectionReason": "why this image fits the scene",'',
      ascii ''      "status": "matched"'',
      ascii ''    }'',
      ascii ''  ]'',
      ascii ''}'',
      [],
      ascii ''IMPORTANT:'',
      ascii ''- All characters have already been matched to folders'',
      ascii ''- If a character has 0 images, set status to "unmatched" and omit selectedImageId'',
      ascii ''- Return results for ALL characters provided'',
      [],
      ascii ''---'',
      [],
      ascii ''Now select the most appropriate image for each character from the filtered images.'']\<close>

text \<open>
  \<open>buildUnifiedPrompt\<close>. Every folder it is given has a block, whatever the number of its
  images. (The conversation text is a parameter that the template does not use.)
\<close>

definition buildUnifiedPrompt :: "jsstring \<Rightarrow> CharacterFolder list \<Rightarrow> SceneAnalysis \<Rightarrow> jsstring" where
  "buildUnifiedPrompt text characterFolders sceneAnalysis =
     (let foldersText = js_join (nl @ nl) (map folderText characterFolders)
      in ascii ''# CHARACTER IMAGE SELECTION'' @ nl @ nl @
         ascii ''## SCENE CONTEXT:'' @ nl @
         template (sceneSummary sceneAnalysis) @ nl @ nl @
         ascii ''NSFW Level: '' @ template (appropriateNsfwLevel sceneAnalysis) @ nl @
         ascii ''Reasoning: '' @ template (reasoning sceneAnalysis) @ nl @ nl @
         ascii ''## AVAILABLE CHARACTERS AND IMAGES (already matched and filtered):'' @ nl @
         foldersText @ nl @ nl @
         prompt_task)"

text \<open>
  The final-selection collaborator: one chat completion for the user message built above.
  Its answer after the response check, \<open>JSON.parse\<close> (with the repair attempt) and the
  check for a \<open>characters\<close> array is one of four outcomes.
\<close>

record CharacterResult =
  cr_name :: jsstring
  cr_folderName :: jsstring
  cr_selectedImageId :: "jsstring option"
  cr_status :: jsstring

datatype LlmOutcome =
    ResponseNotOk nat
  | ContentNotJson
  | NoCharactersArray
  | ParsedCharacters "CharacterResult list"

datatype ApiResponse =
    ErrorResponse nat jsstring
  | SuccessResponse "CharacterResult list"

definition stage3 ::
    "(jsstring \<Rightarrow> LlmOutcome) \<Rightarrow> jsstring \<Rightarrow> CharacterFolder list \<Rightarrow> SceneAnalysis \<Rightarrow> ApiResponse" where
  "stage3 llm text clipFilteredFolders nsfwAnalysis =
     (case llm (buildUnifiedPrompt text clipFilteredFolders nsfwAnalysis) of
        ResponseNotOk status \<Rightarrow>
          ErrorResponse status (ascii ''OpenRouter API error: '' @ decimal status)
      | ContentNotJson \<Rightarrow> ErrorResponse 500 (ascii ''Failed to parse LLM response'')
      | NoCharactersArray \<Rightarrow>
          ErrorResponse 500 (ascii ''Invalid response structure: missing characters array'')
      | ParsedCharacters cs \<Rightarrow> SuccessResponse cs)"

text \<open>The request handler from Stage 2 on, given the parsed Stage 1 answer.\<close>

definition select_images ::
    "(jsstring \<Rightarrow> jsstring) \<Rightarrow> ProcessEnv \<Rightarrow> (Embedding \<Rightarrow> Embedding \<Rightarrow> error + number) \<Rightarrow>
     EmbeddingOutcomes \<Rightarrow> (jsstring \<Rightarrow> LlmOutcome) \<Rightarrow>
     jsstring \<Rightarrow> SceneAnalysis \<Rightarrow> CharacterFolder list \<Rightarrow> ApiResponse" where
  "select_images toLowerCase env cosine outcomes llm text nsfwAnalysis characterFolders =
     (let filteredCharacterFolders = stage2 toLowerCase nsfwAnalysis characterFolders;
          clipFilteredFolders = stage2_5 env cosine outcomes nsfwAnalysis filteredCharacterFolders
      in stage3 llm text clipFilteredFolders nsfwAnalysis)"

text \<open>
  A gallery whose only image is labelled explicit, and a collaborator that answers
  \<open>matched\<close> with an image id for the character of the example whatever the prompt says.
\<close>

definition gallery_explicit_only :: CharacterFolder where
  "gallery_explicit_only =
     \<lparr> cf_id = ascii ''g4'', cf_name = name_rei,
       images = Some [mk_image (ascii ''7'') str_explicit],
       matchedCharacterName = None \<rparr>"

definition answer_matched :: "CharacterResult list" where
  "answer_matched =
     [\<lparr> cr_name = name_rei, cr_folderName = name_rei,
        cr_selectedImageId = Some (ascii ''7''), cr_status = ascii ''matched'' \<rparr>]"

definition llm_always_matched :: "jsstring \<Rightarrow> LlmOutcome" where
  "llm_always_matched prompt = ParsedCharacters answer_matched"

definition zero_image_block :: "jsstring \<Rightarrow> jsstring \<Rightarrow> jsstring" where
  \<open>zero_image_block characterName folderName =
     ascii ''Character: "'' @ characterName @ ascii ''" (Folder: "'' @ folderName @ ascii ''")'' @ nl @
     ascii ''  Total Images: 0'' @ nl @ nl\<close>

definition unmatched_instruction :: jsstring where
  \<open>unmatched_instruction =
     ascii ''- If a character has 0 images, set status to "unmatched" and omit selectedImageId''\<close>

section \<open>Facts about the map operations\<close>

lemma Map_delete_keys: "map fst (Map_delete m k) = filter (\<lambda>x. x \<noteq> k) (map fst m)"
  by (induction m) (auto simp: Map_delete_def)

lemma Map_delete_absent: "k \<notin> fst ` set m \<Longrightarrow> Map_delete m k = m"
  by (induction m) (auto simp: Map_delete_def)

lemma Map_delete_head:
  "distinct (map fst (p # ps)) \<Longrightarrow> Map_delete (p # ps) (fst p) = ps"
  by (simp add: Map_delete_def) (metis Map_delete_absent Map_delete_def)

lemma Map_set_absent: "k \<notin> fst ` set m \<Longrightarrow> Map_set m k v = m @ [(k, v)]"
  by (induction m) auto

lemma Map_set_keys_present: "k \<in> fst ` set m \<Longrightarrow> map fst (Map_set m k v) = map fst m"
  by (induction m) auto

lemma Map_set_length_le: "length (Map_set m k v) \<le> Suc (length m)"
  by (induction m) auto

lemma Map_set_length_present: "k \<in> fst ` set m \<Longrightarrow> length (Map_set m k v) = length m"
  by (induction m) auto

lemma Map_get_Map_set: "Map_get (Map_set m k v) k' = (if k' = k then Some v else Map_get m k')"
  by (induction m) (auto simp: Map_get_def)

lemma Map_get_Map_delete:
  "Map_get (Map_delete m k) k' = (if k' = k then None else Map_get m k')"
  by (induction m) (auto simp: Map_get_def Map_delete_def)

lemma Map_get_None_iff: "Map_get m k = None \<longleftrightarrow> k \<notin> fst ` set m"
  by (simp add: Map_get_def map_of_eq_None_iff)

lemma Map_delete_length_present:
  "distinct (map fst m) \<Longrightarrow> k \<in> fst ` set m \<Longrightarrow> Suc (length (Map_delete m k)) = length m"
proof (induction m)
  case Nil
  then show ?case by simp
next
  case (Cons p ps)
  show ?case
  proof (cases "fst p = k")
    case True
    with Cons.prems show ?thesis using Map_delete_head[of p ps] by simp
  next
    case False
    with Cons show ?thesis by (auto simp: Map_delete_def)
  qed
qed

lemma Map_delete_length_le: "length (Map_delete m k) \<le> length m"
  by (simp add: Map_delete_def)

lemma createCacheKey_nonempty: "createCacheKey key \<noteq> []"
  by (simp add: createCacheKey_def)

lemma createCacheKey_inj: "createCacheKey k1 = createCacheKey k2 \<longleftrightarrow> k1 = k2"
proof
  assume h: "createCacheKey k1 = createCacheKey k2"
  have "key_type k1 = key_type k2"
    using h by (cases "key_type k1"; cases "key_type k2")
               (simp_all add: createCacheKey_def KeyType_string_def)
  with h have "key_value k1 = key_value k2" by (simp add: createCacheKey_def)
  with \<open>key_type k1 = key_type k2\<close> show "k1 = k2" by simp
qed simp


lemma Map_set_keyset: "fst ` set (Map_set m k v) = insert k (fst ` set m)"
  by (induction m) auto

lemma Map_delete_keyset: "fst ` set (Map_delete m k) = fst ` set m - {k}"
  by (auto simp: Map_delete_def)

lemma Map_set_distinct: "distinct (map fst m) \<Longrightarrow> distinct (map fst (Map_set m k v))"
proof (cases "k \<in> fst ` set m")
  case True
  assume "distinct (map fst m)"
  with True show ?thesis by (simp add: Map_set_keys_present)
next
  case False
  assume "distinct (map fst m)"
  with False show ?thesis by (simp add: Map_set_absent)
qed

lemma Map_delete_distinct: "distinct (map fst m) \<Longrightarrow> distinct (map fst (Map_delete m k))"
  by (simp add: Map_delete_keys)

lemma Map_get_Some_keyset: "Map_get m k = Some v \<Longrightarrow> k \<in> fst ` set m"
  using Map_get_None_iff[of m k] by auto

section \<open>The cache invariant\<close>

lemma cache_inv_new: "cache_inv (new_EmbeddingCache options)"
  by (auto simp: cache_inv_def new_EmbeddingCache_def split: option.splits)

lemma maxSize_cache_get [simp]: "maxSize (snd (cache_get now key c)) = maxSize c"
  by (simp add: cache_get_def Let_def split: option.splits)

lemma maxSize_cache_set [simp]: "maxSize (cache_set now key emb t c) = maxSize c"
  by (simp add: cache_set_def Let_def)

lemma defaultTTL_cache_set [simp]: "defaultTTL (cache_set now key emb t c) = defaultTTL c"
  by (simp add: cache_set_def Let_def)

lemma maxSize_apply_op [simp]: "maxSize (apply_op op c) = maxSize c"
  by (cases op) (simp_all add: cache_delete_def cache_clear_def Let_def)

lemma maxSize_run_ops [simp]: "maxSize (run_ops ops c) = maxSize c"
  unfolding run_ops_def by (induction ops arbitrary: c) simp_all

lemma cache_inv_get: 
  assumes "cache_inv c"
  shows "cache_inv (snd (cache_get now key c))"
proof (cases "Map_get (cache c) (createCacheKey key)")
  case None
  with assms show ?thesis by (simp add: cache_get_def Let_def)
next
  case (Some entry)
  let ?k = "createCacheKey key"
  have present: "?k \<in> fst ` set (cache c)" using Some by (rule Map_get_Some_keyset)
  have d: "distinct (map fst (cache c))" and ne: "[] \<notin> fst ` set (cache c)"
    and le: "length (cache c) \<le> maxSize c" and pos: "1 \<le> maxSize c"
    using assms by (simp_all add: cache_inv_def)
  show ?thesis
  proof (cases "age now entry > ttl entry")
    case True
    have "length (Map_delete (cache c) ?k) \<le> maxSize c"
      using le Map_delete_length_le[of "cache c" ?k] by simp
    with True Some d ne pos show ?thesis
      by (simp add: cache_get_def Let_def cache_inv_def Map_delete_distinct Map_delete_keyset)
  next
    case False
    have absent: "?k \<notin> fst ` set (Map_delete (cache c) ?k)" by (simp add: Map_delete_keyset)
    have len: "length (Map_set (Map_delete (cache c) ?k) ?k entry) = length (cache c)"
      using Map_delete_length_present[OF d present] by (simp add: Map_set_absent[OF absent])
    have dist: "distinct (map fst (Map_set (Map_delete (cache c) ?k) ?k entry))"
      by (rule Map_set_distinct) (rule Map_delete_distinct[OF d])
    have keys: "[] \<notin> fst ` set (Map_set (Map_delete (cache c) ?k) ?k entry)"
      using ne createCacheKey_nonempty[of key] by (auto simp: Map_set_keyset Map_delete_keyset)
    from False Some len dist keys le pos show ?thesis
      by (simp add: cache_get_def Let_def cache_inv_def)
  qed
qed

text \<open>The map that \<open>set\<close> stores into, after the possible eviction.\<close>

lemma cache_set_unfold:
  "cache (cache_set now key emb t c) =
     Map_set (if length (cache c) \<ge> maxSize c
              then (case cache c of [] \<Rightarrow> [] | p # ps \<Rightarrow> if fst p \<noteq> [] then Map_delete (cache c) (fst p) else cache c)
              else cache c)
       (createCacheKey key)
       \<lparr> embedding = emb, createdAt = now, ttl = (case t of None \<Rightarrow> defaultTTL c | Some x \<Rightarrow> x) \<rparr>"
  by (cases "cache c") (simp_all add: cache_set_def Let_def Map_size_def Map_firstKey_def)

lemma cache_inv_set:
  assumes "cache_inv c"
  shows "cache_inv (cache_set now key emb t c)"
proof -
  let ?k = "createCacheKey key"
  let ?e = "\<lparr> embedding = emb, createdAt = now, ttl = (case t of None \<Rightarrow> defaultTTL c | Some x \<Rightarrow> x) \<rparr>"
  have d: "distinct (map fst (cache c))" and ne: "[] \<notin> fst ` set (cache c)"
    and le: "length (cache c) \<le> maxSize c" and pos: "1 \<le> maxSize c"
    using assms by (simp_all add: cache_inv_def)
  show ?thesis
  proof (cases "length (cache c) \<ge> maxSize c")
    case False
    then have eq: "cache (cache_set now key emb t c) = Map_set (cache c) ?k ?e"
      by (simp add: cache_set_unfold)
    have "length (Map_set (cache c) ?k ?e) \<le> maxSize c"
      using False Map_set_length_le[of "cache c" ?k ?e] by simp
    moreover have "distinct (map fst (Map_set (cache c) ?k ?e))" by (rule Map_set_distinct[OF d])
    moreover have "[] \<notin> fst ` set (Map_set (cache c) ?k ?e)"
      using ne createCacheKey_nonempty[of key] by (auto simp: Map_set_keyset)
    ultimately show ?thesis using pos by (simp add: cache_inv_def eq)
  next
    case True
    with pos obtain p ps where c: "cache c = p # ps" by (cases "cache c") auto
    have p: "fst p \<noteq> []" using ne c by auto
    have del: "Map_delete (cache c) (fst p) = ps" using d c Map_delete_head[of p ps] by simp
    have eq: "cache (cache_set now key emb t c) = Map_set ps ?k ?e"
      using True c p del by (simp add: cache_set_unfold)
    have "length (Map_set ps ?k ?e) \<le> maxSize c"
      using le c Map_set_length_le[of ps ?k ?e] by simp
    moreover have "distinct (map fst (Map_set ps ?k ?e))"
      by (rule Map_set_distinct) (use d c in simp)
    moreover have "[] \<notin> fst ` set (Map_set ps ?k ?e)"
      using ne c createCacheKey_nonempty[of key] by (auto simp: Map_set_keyset)
    ultimately show ?thesis using pos by (simp add: cache_inv_def eq)
  qed
qed

lemma cache_inv_delete: "cache_inv c \<Longrightarrow> cache_inv (snd (cache_delete key c))"
  using Map_delete_length_le[of "cache c" "createCacheKey key"]
  by (simp add: cache_inv_def cache_delete_def Let_def Map_delete_distinct Map_delete_keyset)

lemma cache_inv_clear: "cache_inv c \<Longrightarrow> cache_inv (cache_clear c)"
  by (simp add: cache_inv_def cache_clear_def)

lemma cache_inv_apply_op: "cache_inv c \<Longrightarrow> cache_inv (apply_op op c)"
  by (cases op) (simp_all add: cache_inv_get cache_inv_set cache_inv_delete cache_inv_clear)

lemma cache_inv_run_ops: "cache_inv c \<Longrightarrow> cache_inv (run_ops ops c)"
  unfolding run_ops_def by (induction ops arbitrary: c) (simp_all add: cache_inv_apply_op)

lemma reachable_inv: "reachable c \<Longrightarrow> cache_inv c"
  by (induction rule: reachable.induct) (simp_all add: cache_inv_new cache_inv_apply_op)

lemma reachable_run_ops: "reachable c \<Longrightarrow> reachable (run_ops ops c)"
  unfolding run_ops_def by (induction ops arbitrary: c) (simp_all add: reachable_op)

section \<open>Storing keys that are not in the cache\<close>

lemma defaultTTL_apply_op [simp]: "defaultTTL (apply_op op c) = defaultTTL c"
  by (cases op) (simp_all add: cache_get_def cache_delete_def cache_clear_def Let_def split: option.splits)

lemma defaultTTL_run_ops [simp]: "defaultTTL (run_ops ops c) = defaultTTL c"
  unfolding run_ops_def by (induction ops arbitrary: c) simp_all

lemma set_all_Nil [simp]: "set_all [] c = c"
  by (simp add: set_all_def run_ops_def)

lemma set_all_snoc:
  "set_all (calls @ [(now, key, emb, t)]) c = cache_set now key emb t (set_all calls c)"
  by (simp add: set_all_def run_ops_def)

lemma set_all_inv: "cache_inv c \<Longrightarrow> cache_inv (set_all calls c)"
  by (simp add: set_all_def cache_inv_run_ops)

lemma set_all_maxSize [simp]: "maxSize (set_all calls c) = maxSize c"
  by (simp add: set_all_def)

lemma set_all_defaultTTL [simp]: "defaultTTL (set_all calls c) = defaultTTL c"
  by (simp add: set_all_def)

lemma cache_set_new_key:
  assumes inv: "cache_inv c" and new: "createCacheKey key \<notin> fst ` set (cache c)"
  shows "cache (cache_set now key emb t c) =
           drop (Suc (length (cache c)) - maxSize c)
             (cache c @ [call_entry (defaultTTL c) (now, key, emb, t)])"
proof (cases "length (cache c) \<ge> maxSize c")
  case False
  then show ?thesis
    using new by (simp add: cache_set_unfold Map_set_absent call_entry_def)
next
  case True
  have d: "distinct (map fst (cache c))" and ne: "[] \<notin> fst ` set (cache c)"
    and le: "length (cache c) \<le> maxSize c" and pos: "1 \<le> maxSize c"
    using inv by (simp_all add: cache_inv_def)
  from True pos obtain p ps where c: "cache c = p # ps" by (cases "cache c") auto
  have p: "fst p \<noteq> []" using ne c by auto
  have del: "Map_delete (cache c) (fst p) = ps" using d c Map_delete_head[of p ps] by simp
  have absent: "createCacheKey key \<notin> fst ` set ps" using new c by simp
  have len: "Suc (length (cache c)) - maxSize c = 1" using True le by simp
  show ?thesis
    unfolding len using True c p del
    by (simp add: cache_set_unfold Map_set_absent[OF absent] call_entry_def)
qed

lemma fst_call_entry [simp]: "fst (call_entry dflt call) = call_key call"
  by (simp add: call_entry_def call_key_def split: prod.splits)

lemma drop_snoc_step: "Suc d \<le> length xs \<Longrightarrow> drop 1 (drop d xs @ [y]) = drop (Suc d) (xs @ [y])"
  by simp

lemma set_all_new_keys:
  assumes inv: "cache_inv c"
  shows "distinct (map call_key calls) \<Longrightarrow>
         \<forall>call \<in> set calls. call_key call \<notin> fst ` set (cache c) \<Longrightarrow>
         cache (set_all calls c) =
           drop (length (cache c) + length calls - maxSize c)
             (cache c @ map (call_entry (defaultTTL c)) calls)"
proof (induction calls rule: rev_induct)
  case Nil
  have "length (cache c) \<le> maxSize c" using inv by (simp add: cache_inv_def)
  then show ?case by simp
next
  case (snoc call calls)
  obtain now key emb t where call: "call = (now, key, emb, t)" by (cases call) auto
  let ?all = "cache c @ map (call_entry (defaultTTL c)) calls"
  let ?d = "length (cache c) + length calls - maxSize c"
  let ?c' = "set_all calls c"
  have IH: "cache ?c' = drop ?d ?all" using snoc by simp
  have inv': "cache_inv ?c'" using inv by (rule set_all_inv)
  have pos: "1 \<le> maxSize c" using inv by (simp add: cache_inv_def)
  have keys: "fst ` set ?all = fst ` set (cache c) \<union> call_key ` set calls"
    by (auto simp: image_Un image_image)
  have "createCacheKey key \<notin> fst ` set ?all"
    using snoc.prems call unfolding keys by (auto simp: call_key_def)
  then have new: "createCacheKey key \<notin> fst ` set (cache ?c')"
    unfolding IH using set_drop_subset[of ?d ?all] by blast
  have step: "cache (set_all (calls @ [call]) c) =
        drop (Suc (length (cache ?c')) - maxSize c)
          (cache ?c' @ [call_entry (defaultTTL c) call])"
    using cache_set_new_key[OF inv' new, of now emb t] by (simp add: call set_all_snoc)
  have len_all: "length ?all = length (cache c) + length calls" by simp
  show ?case
  proof (cases "length (cache c) + length calls < maxSize c")
    case True
    then show ?thesis unfolding step IH by simp
  next
    case False
    then have len': "length (drop ?d ?all) = maxSize c" by simp
    have d_le: "Suc ?d \<le> length ?all" using False pos by simp
    have "drop (Suc (length (drop ?d ?all)) - maxSize c) (drop ?d ?all @ [call_entry (defaultTTL c) call])
          = drop 1 (drop ?d ?all @ [call_entry (defaultTTL c) call])"
      unfolding len' by simp
    also have "\<dots> = drop (Suc ?d) (?all @ [call_entry (defaultTTL c) call])"
      using d_le by (rule drop_snoc_step)
    also have "Suc ?d = length (cache c) + length (calls @ [call]) - maxSize c"
      using False by simp
    finally show ?thesis unfolding step IH by simp
  qed
qed

lemma cache_get_hit:
  assumes "Map_get (cache c) (createCacheKey key) = Some entry" "\<not> age now entry > ttl entry"
  shows "cache_get now key c =
          (Some (embedding entry),
           c\<lparr>cache := Map_delete (cache c) (createCacheKey key) @ [(createCacheKey key, entry)]\<rparr>)"
proof -
  have "createCacheKey key \<notin> fst ` set (Map_delete (cache c) (createCacheKey key))"
    by (simp add: Map_delete_keyset)
  then show ?thesis using assms by (simp add: cache_get_def Let_def Map_set_absent)
qed

lemma cache_get_expired:
  assumes "Map_get (cache c) (createCacheKey key) = Some entry" "age now entry > ttl entry"
  shows "cache_get now key c = (None, c\<lparr>cache := Map_delete (cache c) (createCacheKey key)\<rparr>)"
  using assms by (simp add: cache_get_def Let_def)


section \<open>EmbeddingCache: expiry, recency and the capacity bound\<close>

lemmas cache_eval =
  cache_ab_def image_key_def run_ops_def set_all_def new_EmbeddingCache_def
  cache_set_def cache_get_def cache_delete_def cache_clear_def cache_size_def
  createCacheKey_def KeyType_string_def
  Map_get_def Map_delete_def Map_size_def Map_firstKey_def age_def call_key_def call_entry_def Let_def

text \<open>
  C8. In any state of the cache, a \<open>get\<close> of a stored key whose entry is older than the
  entry's own TTL returns a miss and removes the entry, so the size read right after is one
  less; a \<open>get\<close> of a stored key whose entry is not older than its TTL returns the stored
  vector.
\<close>

theorem get_expiry:
  "reachable c \<Longrightarrow> Map_get (cache c) (createCacheKey key) = Some entry \<Longrightarrow>
   (age now entry > ttl entry \<longrightarrow>
      fst (cache_get now key c) = None \<and>
      Map_get (cache (snd (cache_get now key c))) (createCacheKey key) = None \<and>
      Suc (cache_size (snd (cache_get now key c))) = cache_size c) \<and>
   (\<not> age now entry > ttl entry \<longrightarrow>
      fst (cache_get now key c) = Some (embedding entry))"
proof (intro conjI impI)
  assume r: "reachable c" and e: "Map_get (cache c) (createCacheKey key) = Some entry"
  have d: "distinct (map fst (cache c))" using reachable_inv[OF r] by (simp add: cache_inv_def)
  have present: "createCacheKey key \<in> fst ` set (cache c)" using e by (rule Map_get_Some_keyset)
  {
    assume x: "age now entry > ttl entry"
    show "fst (cache_get now key c) = None" by (simp add: cache_get_expired[OF e x])
    show "Map_get (cache (snd (cache_get now key c))) (createCacheKey key) = None"
      by (simp add: cache_get_expired[OF e x] Map_get_Map_delete)
    show "Suc (cache_size (snd (cache_get now key c))) = cache_size c"
      using Map_delete_length_present[OF d present]
      by (simp add: cache_get_expired[OF e x] cache_size_def Map_size_def)
  }
  {
    assume x: "\<not> age now entry > ttl entry"
    show "fst (cache_get now key c) = Some (embedding entry)" by (simp add: cache_get_hit[OF e x])
  }
qed

theorem get_expiry_witness:
  "fst (cache_get 5000 (image_key 0x61) (cache_ab 2)) = Some [1] \<and>
   fst (cache_get 3600001 (image_key 0x61) (cache_ab 2)) = None \<and>
   cache_size (cache_ab 2) = 2 \<and>
   cache_size (snd (cache_get 3600001 (image_key 0x61) (cache_ab 2))) = 1"
proof -
  have r: "reachable (cache_ab 2)"
    unfolding cache_ab_def by (rule reachable_run_ops) (rule reachable_new)
  let ?e = "\<lparr> embedding = [1], createdAt = 0, ttl = 3600 \<rparr>"
  have e: "Map_get (cache (cache_ab 2)) (createCacheKey (image_key 0x61)) = Some ?e"
    by (simp add: cache_eval)
  have sz: "cache_size (cache_ab 2) = 2" by (simp add: cache_eval)
  have old: "age 3600001 ?e > ttl ?e" and fresh: "\<not> age 5000 ?e > ttl ?e"
    by (simp_all add: age_def)
  from get_expiry[OF r e, of 3600001] old get_expiry[OF r e, of 5000] fresh sz
  show ?thesis by simp
qed

text \<open>
  C9. After any sequence of \<open>get\<close>, \<open>set\<close>, \<open>delete\<close> and \<open>clear\<close> calls on a cache built by
  the constructor, the size is at most the cache's capacity (which is the positive \<open>N\<close>
  passed as \<open>maxSize\<close>), and a vector returned by \<open>get\<close> is the vector of the entry stored
  under that key, whose age at the clock reading of the call is not above its own TTL.
\<close>

theorem size_bounded_reads_checked:
  "cache_size (run_ops ops (new_EmbeddingCache options)) \<le> maxSize (new_EmbeddingCache options) \<and>
   (opt_maxSize options = Some N \<and> 0 < N \<longrightarrow>
      cache_size (run_ops ops (new_EmbeddingCache options)) \<le> N) \<and>
   (fst (cache_get now key (run_ops ops (new_EmbeddingCache options))) = Some v \<longrightarrow>
      (\<exists>entry. Map_get (cache (run_ops ops (new_EmbeddingCache options))) (createCacheKey key) = Some entry \<and>
               embedding entry = v \<and> age now entry \<le> ttl entry))"
proof -
  let ?c = "run_ops ops (new_EmbeddingCache options)"
  have inv: "cache_inv ?c" by (rule cache_inv_run_ops) (rule cache_inv_new)
  then have le: "cache_size ?c \<le> maxSize (new_EmbeddingCache options)"
    by (simp add: cache_inv_def cache_size_def Map_size_def)
  have cap: "opt_maxSize options = Some N \<and> 0 < N \<longrightarrow> cache_size ?c \<le> N"
    using le by (auto simp: new_EmbeddingCache_def)
  have rd: "fst (cache_get now key ?c) = Some v \<longrightarrow>
      (\<exists>entry. Map_get (cache ?c) (createCacheKey key) = Some entry \<and>
               embedding entry = v \<and> age now entry \<le> ttl entry)"
    by (auto simp: cache_get_def Let_def split: option.splits if_splits)
  from le cap rd show ?thesis by blast
qed

theorem size_bounded_reads_checked_witness:
  "cache_size (run_ops [OpSet 0 (image_key 0x61) [1] None, OpSet 1 (image_key 0x62) [2] (Some 5),
                        OpGet 2 (image_key 0x61), OpSet 3 (image_key 0x63) [3] None,
                        OpDelete (image_key 0x62), OpSet 4 (image_key 0x64) [4] None,
                        OpSet 5 (image_key 0x65) [5] None]
                 (new_EmbeddingCache \<lparr> opt_maxSize = Some 2, opt_defaultTTL = None \<rparr>)) \<le> 2 \<and>
   (\<exists>entry. Map_get (cache (cache_ab 2)) (createCacheKey (image_key 0x62)) = Some entry \<and>
            embedding entry = [2] \<and> age 7000 entry \<le> ttl entry)"
proof -
  have g: "fst (cache_get 7000 (image_key 0x62)
             (run_ops [OpSet 0 (image_key 0x61) [1] None, OpSet 0 (image_key 0x62) [2] None]
                (new_EmbeddingCache \<lparr> opt_maxSize = Some 2, opt_defaultTTL = None \<rparr>))) = Some [2]"
    by (simp add: cache_eval)
  show ?thesis
    using size_bounded_reads_checked[of
            "[OpSet 0 (image_key 0x61) [1] None, OpSet 1 (image_key 0x62) [2] (Some 5),
              OpGet 2 (image_key 0x61), OpSet 3 (image_key 0x63) [3] None,
              OpDelete (image_key 0x62), OpSet 4 (image_key 0x64) [4] None,
              OpSet 5 (image_key 0x65) [5] None]"
            "\<lparr> opt_maxSize = Some 2, opt_defaultTTL = None \<rparr>" 2]
          size_bounded_reads_checked[of
            "[OpSet 0 (image_key 0x61) [1] None, OpSet 0 (image_key 0x62) [2] None]"
            "\<lparr> opt_maxSize = Some 2, opt_defaultTTL = None \<rparr>" 2 7000 "image_key 0x62" "[2]"]
          g
    by (simp add: cache_ab_def)
qed

lemma Map_get_append_fresh:
  "k \<notin> fst ` set xs \<Longrightarrow> Map_get (xs @ (k, v) # ys) k = Some v"
  by (induction xs) (auto simp: Map_get_def)

text \<open>
  C3, as the code has it. A \<open>get\<close> of a stored, unexpired key returns its vector and moves
  the entry to the most-recent end of the map, the other entries keeping their order;
  after it, storing fewer new distinct keys than the capacity (at most capacity - 1) leaves
  that entry in the cache, unchanged. Storing capacity + 1 distinct keys into a new cache
  leaves exactly the entries of all but the first key stored, in the order stored.
\<close>

theorem get_refreshes_recency:
  "(reachable c \<and> Map_get (cache c) (createCacheKey key) = Some entry \<and>
    \<not> age now entry > ttl entry \<longrightarrow>
      fst (cache_get now key c) = Some (embedding entry) \<and>
      cache (snd (cache_get now key c)) =
        Map_delete (cache c) (createCacheKey key) @ [(createCacheKey key, entry)] \<and>
      (distinct (map call_key calls) \<and>
       (\<forall>call \<in> set calls. call_key call \<notin> fst ` set (cache c)) \<and>
       Suc (length calls) \<le> maxSize c \<longrightarrow>
         Map_get (cache (set_all calls (snd (cache_get now key c)))) (createCacheKey key)
           = Some entry)) \<and>
   (distinct (map call_key calls') \<and>
    length calls' = Suc (maxSize (new_EmbeddingCache options)) \<longrightarrow>
      cache (set_all calls' (new_EmbeddingCache options)) =
        map (call_entry (defaultTTL (new_EmbeddingCache options))) (tl calls'))"
proof (intro conjI impI; (elim conjE)?)
  assume r: "reachable c" and e: "Map_get (cache c) (createCacheKey key) = Some entry"
    and fresh: "\<not> age now entry > ttl entry"
  let ?k = "createCacheKey key"
  let ?c' = "snd (cache_get now key c)"
  have inv: "cache_inv c" using r by (rule reachable_inv)
  have d: "distinct (map fst (cache c))" and le: "length (cache c) \<le> maxSize c"
    using inv by (simp_all add: cache_inv_def)
  have present: "?k \<in> fst ` set (cache c)" using e by (rule Map_get_Some_keyset)
  show "fst (cache_get now key c) = Some (embedding entry)"
    by (simp add: cache_get_hit[OF e fresh])
  show c': "cache ?c' = Map_delete (cache c) ?k @ [(?k, entry)]"
    by (simp add: cache_get_hit[OF e fresh])
  {
    assume dist: "distinct (map call_key calls)"
      and new: "\<forall>call \<in> set calls. call_key call \<notin> fst ` set (cache c)"
      and few: "Suc (length calls) \<le> maxSize c"
    have inv': "cache_inv ?c'" using inv by (rule cache_inv_get)
    have keys': "fst ` set (cache ?c') = fst ` set (cache c)"
      unfolding c' using present by (auto simp: Map_delete_keyset)
    have new': "\<forall>call \<in> set calls. call_key call \<notin> fst ` set (cache ?c')"
      using new unfolding keys' .
    have len_del: "Suc (length (Map_delete (cache c) ?k)) = length (cache c)"
      by (rule Map_delete_length_present[OF d present])
    define del where "del = Map_delete (cache c) ?k"
    define rest where "rest = map (call_entry (defaultTTL c)) calls"
    define n where "n = length (cache ?c') + length calls - maxSize c"
    have n_le: "n \<le> length del"
      using len_del le few unfolding n_def c' del_def by simp
    have "?k \<notin> fst ` set del" unfolding del_def by (simp add: Map_delete_keyset)
    then have absent: "?k \<notin> fst ` set (drop n del)"
      using set_drop_subset[of n del] by blast
    have "cache (set_all calls ?c') = drop n (cache ?c' @ map (call_entry (defaultTTL ?c')) calls)"
      unfolding n_def using set_all_new_keys[OF inv' dist new'] by simp
    also have "defaultTTL ?c' = defaultTTL c" by (simp add: cache_get_hit[OF e fresh])
    also have "drop n (cache ?c' @ map (call_entry (defaultTTL c)) calls)
               = drop n del @ (?k, entry) # rest"
      unfolding c' using n_le by (simp add: del_def rest_def)
    finally show "Map_get (cache (set_all calls ?c')) ?k = Some entry"
      using Map_get_append_fresh[OF absent] by simp
  }
next
  assume dist: "distinct (map call_key calls')"
    and len: "length calls' = Suc (maxSize (new_EmbeddingCache options))"
  let ?c = "new_EmbeddingCache options"
  have empty: "cache ?c = []" by (simp add: new_EmbeddingCache_def)
  have "cache (set_all calls' ?c) =
          drop (length (cache ?c) + length calls' - maxSize ?c)
            (cache ?c @ map (call_entry (defaultTTL ?c)) calls')"
    by (rule set_all_new_keys[OF cache_inv_new dist]) (simp add: empty)
  then show "cache (set_all calls' ?c) = map (call_entry (defaultTTL ?c)) (tl calls')"
    unfolding empty len by (simp add: drop_Suc map_tl)
qed

theorem get_refreshes_recency_witness:
  "fst (cache_get 1000 (image_key 0x61) (cache_ab 3)) = Some [1] \<and>
   map fst (cache (snd (cache_get 1000 (image_key 0x61) (cache_ab 3)))) =
     [createCacheKey (image_key 0x62), createCacheKey (image_key 0x61)] \<and>
   Map_get (cache (set_all [(2000, image_key 0x63, [3], None), (3000, image_key 0x64, [4], None)]
                     (snd (cache_get 1000 (image_key 0x61) (cache_ab 3)))))
           (createCacheKey (image_key 0x61))
     = Some \<lparr> embedding = [1], createdAt = 0, ttl = 3600 \<rparr> \<and>
   map fst (cache (set_all [(0, image_key 0x61, [1], None), (1, image_key 0x62, [2], None),
                            (2, image_key 0x63, [3], None)]
                     (new_EmbeddingCache \<lparr> opt_maxSize = Some 2, opt_defaultTTL = None \<rparr>))) =
     [createCacheKey (image_key 0x62), createCacheKey (image_key 0x63)]"
proof -
  have r: "reachable (cache_ab 3)"
    unfolding cache_ab_def by (rule reachable_run_ops) (rule reachable_new)
  let ?e = "\<lparr> embedding = [1], createdAt = 0, ttl = 3600 \<rparr>"
  let ?calls = "[(2000, image_key 0x63, [3], None), (3000, image_key 0x64, [4], None)]"
  let ?calls' = "[(0, image_key 0x61, [1], None), (1, image_key 0x62, [2], None),
                  (2, image_key 0x63, [3], None)]"
  let ?opts = "\<lparr> opt_maxSize = Some 2, opt_defaultTTL = None \<rparr>"
  have e: "Map_get (cache (cache_ab 3)) (createCacheKey (image_key 0x61)) = Some ?e"
    by (simp add: cache_eval)
  have fresh: "\<not> age 1000 ?e > ttl ?e" by (simp add: age_def)
  have h1: "distinct (map call_key ?calls)" by (simp add: cache_eval)
  have h2: "\<forall>call \<in> set ?calls. call_key call \<notin> fst ` set (cache (cache_ab 3))"
    by (simp add: cache_eval)
  have h3: "Suc (length ?calls) \<le> maxSize (cache_ab 3)" by (simp add: cache_eval)
  have h4: "distinct (map call_key ?calls')" by (simp add: cache_eval)
  have h5: "length ?calls' = Suc (maxSize (new_EmbeddingCache ?opts))"
    by (simp add: new_EmbeddingCache_def)
  have del: "Map_delete (cache (cache_ab 3)) (createCacheKey (image_key 0x61)) =
               [(createCacheKey (image_key 0x62), \<lparr> embedding = [2], createdAt = 0, ttl = 3600 \<rparr>)]"
    by (simp add: cache_eval)
  from get_refreshes_recency[of "cache_ab 3" "image_key 0x61" ?e 1000 ?calls ?calls' ?opts]
       r e fresh h1 h2 h3 h4 h5
  show ?thesis by (simp add: del call_entry_def call_key_def)
qed

text \<open>
  C3 as stated fails. With capacity 2 and keys \<open>a\<close>, \<open>b\<close> stored, a \<open>get\<close> of \<open>b\<close> followed by
  storing two (capacity-many) new keys leaves \<open>b\<close> out of the cache. And with capacity 3
  and keys \<open>a\<close>, \<open>b\<close> stored, a \<open>set\<close> of the stored key \<open>a\<close> leaves \<open>a\<close> the oldest key.
\<close>

theorem get_then_capacity_many_sets_counterexample:
  "fst (cache_get 1000 (image_key 0x62) (cache_ab 2)) = Some [2] \<and>
   Map_get (cache (set_all [(2000, image_key 0x63, [3], None), (3000, image_key 0x64, [4], None)]
                     (snd (cache_get 1000 (image_key 0x62) (cache_ab 2)))))
           (createCacheKey (image_key 0x62)) = None \<and>
   map fst (cache (cache_set 1000 (image_key 0x61) [9] None (cache_ab 3))) =
     [createCacheKey (image_key 0x61), createCacheKey (image_key 0x62)]"
  by (simp add: cache_eval)

text \<open>
  C4 on the code: with capacity 2 and keys \<open>a\<close>, \<open>b\<close> stored, a \<open>set\<close> of the stored key
  \<open>b\<close> removes the entry of \<open>a\<close>, and the size drops from 2 to 1.
\<close>

theorem set_present_key_evicts:
  "Map_get (cache (cache_ab 2)) (createCacheKey (image_key 0x62)) \<noteq> None \<and>
   Map_get (cache (cache_ab 2)) (createCacheKey (image_key 0x61)) \<noteq> None \<and>
   cache_size (cache_ab 2) = 2 \<and>
   Map_get (cache (cache_set 1000 (image_key 0x62) [9] None (cache_ab 2)))
           (createCacheKey (image_key 0x61)) = None \<and>
   cache_size (cache_set 1000 (image_key 0x62) [9] None (cache_ab 2)) = 1"
  by (simp add: cache_eval)


section \<open>selectBestMatch returns the first folder of highest score\<close>

lemma hd_insort_key:
  "hd (insort_key f x ys) = (if ys = [] \<or> f x \<le> f (hd ys) then x else hd ys)"
  by (cases ys) auto

lemma sort_key_not_Nil: "xs \<noteq> [] \<Longrightarrow> sort_key f xs \<noteq> []"
  by (metis length_sort length_0_conv)

text \<open>The head of a stable sort is the first element whose key is least.\<close>

lemma hd_sort_key_first_least:
  fixes f :: "'a \<Rightarrow> int"
  assumes "xs \<noteq> []"
  shows "\<exists>i<length xs. hd (sort_key f xs) = xs ! i \<and>
           (\<forall>j<length xs. f (xs ! i) \<le> f (xs ! j)) \<and> (\<forall>j<i. f (xs ! i) < f (xs ! j))"
  using assms
proof (induction xs)
  case Nil
  then show ?case by simp
next
  case (Cons x xs)
  show ?case
  proof (cases "xs = []")
    case True
    then show ?thesis by simp
  next
    case False
    with Cons.IH obtain i where i: "i < length xs" "hd (sort_key f xs) = xs ! i"
      and least: "\<forall>j<length xs. f (xs ! i) \<le> f (xs ! j)"
      and first: "\<forall>j<i. f (xs ! i) < f (xs ! j)" by blast
    have ne: "sort_key f xs \<noteq> []" using False by (rule sort_key_not_Nil)
    have hd: "hd (sort_key f (x # xs)) = (if f x \<le> f (xs ! i) then x else xs ! i)"
      using ne i(2) by (simp add: hd_insort_key)
    show ?thesis
    proof (cases "f x \<le> f (xs ! i)")
      case True
      have "\<forall>j<length (x # xs). f ((x # xs) ! 0) \<le> f ((x # xs) ! j)"
      proof (intro allI impI)
        fix j assume "j < length (x # xs)"
        then show "f ((x # xs) ! 0) \<le> f ((x # xs) ! j)"
          using True least by (cases j) (auto intro: order_trans)
      qed
      with True hd show ?thesis by (intro exI[of _ 0]) simp
    next
      case False
      have a: "\<forall>j<length (x # xs). f ((x # xs) ! Suc i) \<le> f ((x # xs) ! j)"
      proof (intro allI impI)
        fix j assume "j < length (x # xs)"
        then show "f ((x # xs) ! Suc i) \<le> f ((x # xs) ! j)"
          using False least by (cases j) auto
      qed
      have b: "\<forall>j<Suc i. f ((x # xs) ! Suc i) < f ((x # xs) ! j)"
      proof (intro allI impI)
        fix j assume "j < Suc i"
        then show "f ((x # xs) ! Suc i) < f ((x # xs) ! j)"
          using False first by (cases j) auto
      qed
      from False hd i(1) a b show ?thesis by (intro exI[of _ "Suc i"]) simp
    qed
  qed
qed

lemma selectBestMatch_Some:
  assumes "folders \<noteq> []"
  shows "selectBestMatch lc (Some folders) q =
           Some (fst (hd (sort_key (\<lambda>s. - snd s) (map (\<lambda>folder. (folder, matchScore lc q folder)) folders))))"
proof -
  let ?scored = "map (\<lambda>folder. (folder, matchScore lc q folder)) folders"
  have "sort_key (\<lambda>s. - snd s) ?scored \<noteq> []"
    by (rule sort_key_not_Nil) (use assms in simp)
  then obtain s ss where "sort_key (\<lambda>s. - snd s) ?scored = s # ss"
    by (cases "sort_key (\<lambda>s. - snd s) ?scored") auto
  then show ?thesis using assms by (simp add: selectBestMatch_def Let_def)
qed

lemma selectBestMatch_first_highest:
  assumes "folders \<noteq> []"
  shows "\<exists>i<length folders. selectBestMatch lc (Some folders) q = Some (folders ! i) \<and>
           (\<forall>j<length folders. matchScore lc q (folders ! j) \<le> matchScore lc q (folders ! i)) \<and>
           (\<forall>j<i. matchScore lc q (folders ! j) < matchScore lc q (folders ! i))"
proof -
  let ?scored = "map (\<lambda>folder. (folder, matchScore lc q folder)) folders"
  have "?scored \<noteq> []" using assms by simp
  from hd_sort_key_first_least[OF this, of "\<lambda>s. - snd s"]
  obtain i where i: "i < length folders"
    and hd: "hd (sort_key (\<lambda>s. - snd s) ?scored) = ?scored ! i"
    and least: "\<forall>j<length folders. - snd (?scored ! i) \<le> - snd (?scored ! j)"
    and first: "\<forall>j<i. - snd (?scored ! i) < - snd (?scored ! j)"
    by auto
  have sel: "selectBestMatch lc (Some folders) q = Some (folders ! i)"
    using i by (simp add: selectBestMatch_Some[OF assms] hd)
  have a: "\<forall>j<length folders. matchScore lc q (folders ! j) \<le> matchScore lc q (folders ! i)"
    using least i by auto
  have b: "\<forall>j<i. matchScore lc q (folders ! j) < matchScore lc q (folders ! i)"
    using first i by auto
  from i sel a b show ?thesis by blast
qed

text \<open>
  A folder name that starts with the query contains it: the branch that scores 850 is
  never taken.
\<close>

lemma startsWith_implies_includes: "startsWith s t \<Longrightarrow> js_includes s t"
  by (simp add: startsWith_def js_includes_def)

text \<open>White space at either end gives an empty piece; a run of white space separates once.\<close>

lemma split_whitespace_examples:
  "split_whitespace [] = [[]]"
  "split_whitespace [0x61, 0x20, 0x20, 0x62] = [[0x61], [0x62]]"
  "split_whitespace [0x20, 0x61, 0x09] = [[], [0x61], []]"
  by (simp_all add: split_whitespace_def isWhiteSpace_def)


lemma split_ws_no_white_space:
  "\<forall>u \<in> set s. \<not> isWhiteSpace u \<Longrightarrow> split_ws cur s = [cur @ s]"
  by (induction s arbitrary: cur) simp_all

lemma sublist_singleton: "sublist [a] ys \<longleftrightarrow> a \<in> set ys"
  by (induction ys) (auto simp: sublist_Cons_right)

section \<open>The score in the code and the score in the specification\<close>





lemma matchScore_unfold:
  "matchScore lc q f =
     (if lc (folder_name f) = lc q then 1000
      else if sublist (lc q) (lc (folder_name f)) then 900
      else if prefix (lc q) (lc (folder_name f)) then 850
      else 700 + 50 * int (length (filter (\<lambda>w. w \<in> set (split_whitespace (lc (folder_name f))))
                                     (split_whitespace (lc q)))))
     - 2 * \<bar>int (length (lc (folder_name f))) - int (length (lc q))\<bar>"
  by (simp add: matchScore_def js_includes_def startsWith_def Let_def)










lemma matchScore_replicate_b:
  assumes "0 < n"
  shows "matchScore toLowerCase_latin1 [0x61] \<lparr> folder_id = i, folder_name = replicate n 0x62 \<rparr>
           = 702 - 2 * int n"
proof -
  let ?far = "replicate n (0x62 :: 16 word)"
  have lq: "toLowerCase_latin1 [0x61] = [0x61]" by (simp add: toLowerCase_latin1_def)
  have lf: "toLowerCase_latin1 ?far = ?far" by (simp add: toLowerCase_latin1_def)
  have nsub: "\<not> sublist [0x61] ?far" by (simp add: sublist_singleton)
  then have npre: "\<not> prefix [0x61] ?far" using prefix_imp_sublist by blast
  have ne: "?far \<noteq> [0x61]" using nsub by auto
  have wq: "split_whitespace [0x61] = [[0x61]]"
    by (simp add: split_whitespace_def isWhiteSpace_def)
  have wf: "split_whitespace ?far = [?far]"
    unfolding split_whitespace_def
    by (subst split_ws_no_white_space) (simp_all add: isWhiteSpace_def)
  have nw: "[0x61] \<noteq> ?far" using ne by simp
  show ?thesis
    using ne nsub npre nw assms
    by (simp add: matchScore_unfold lq lf wq wf)
qed

lemma scores_far:
  "matchScore toLowerCase_latin1 [0x61] folder_far = - 98"
  "matchScore toLowerCase_latin1 [0x61] folder_farther = - 298"
  by (simp_all add: folder_far_def folder_farther_def matchScore_replicate_b)

text \<open>
  C10. For a non-empty folder list \<open>selectBestMatch\<close> never returns \<open>null\<close>: it returns the
  folder of the list whose score is the highest (the first of them in the list), whatever
  that score is. A single folder
  is returned for every query. Against the query a, the folder named by 500 letters b
  scores -298 and the folder named by 400 letters b scores -98; of the two, the second is
  returned.
\<close>

theorem selectBestMatch_no_threshold:
  "(folders \<noteq> [] \<longrightarrow>
      (\<exists>i<length folders. selectBestMatch lc (Some folders) q = Some (folders ! i) \<and>
         (\<forall>j<length folders. matchScore lc q (folders ! j) \<le> matchScore lc q (folders ! i)) \<and>
         (\<forall>j<i. matchScore lc q (folders ! j) < matchScore lc q (folders ! i)))) \<and>
   selectBestMatch lc (Some [f0]) q = Some f0 \<and>
   matchScore toLowerCase_latin1 [0x61] folder_far = - 98 \<and>
   matchScore toLowerCase_latin1 [0x61] folder_farther = - 298 \<and>
   selectBestMatch toLowerCase_latin1 (Some [folder_far]) [0x61] = Some folder_far \<and>
   selectBestMatch toLowerCase_latin1 (Some [folder_farther, folder_far]) [0x61] = Some folder_far"
proof (intro conjI impI)
  assume ne: "folders \<noteq> []"
  then show "\<exists>i<length folders. selectBestMatch lc (Some folders) q = Some (folders ! i) \<and>
         (\<forall>j<length folders. matchScore lc q (folders ! j) \<le> matchScore lc q (folders ! i)) \<and>
         (\<forall>j<i. matchScore lc q (folders ! j) < matchScore lc q (folders ! i))"
    by (rule selectBestMatch_first_highest)
next
  show "selectBestMatch lc (Some [f0]) q = Some f0"
    by (simp add: selectBestMatch_def Let_def)
  show "matchScore toLowerCase_latin1 [0x61] folder_far = - 98" by (rule scores_far)
  show "matchScore toLowerCase_latin1 [0x61] folder_farther = - 298" by (rule scores_far)
  show "selectBestMatch toLowerCase_latin1 (Some [folder_far]) [0x61] = Some folder_far"
    by (simp add: selectBestMatch_def Let_def)
  show "selectBestMatch toLowerCase_latin1 (Some [folder_farther, folder_far]) [0x61] = Some folder_far"
    by (simp add: selectBestMatch_def Let_def scores_far)
qed

theorem selectBestMatch_no_threshold_witness:
  "selectBestMatch toLowerCase_latin1 (Some [folder_farther, folder_far, folder_farther]) [0x61]
     = Some folder_far"
proof -
  let ?fs = "[folder_farther, folder_far, folder_farther]"
  let ?s = "matchScore toLowerCase_latin1 [0x61]"
  have ne: "?fs \<noteq> []" by simp
  from selectBestMatch_no_threshold[of ?fs toLowerCase_latin1 "[0x61]"] ne
  obtain i where i: "i < length ?fs"
    and sel: "selectBestMatch toLowerCase_latin1 (Some ?fs) [0x61] = Some (?fs ! i)"
    and top: "\<forall>j<length ?fs. ?s (?fs ! j) \<le> ?s (?fs ! i)"
    by blast
  from top have "1 < length ?fs \<longrightarrow> ?s (?fs ! 1) \<le> ?s (?fs ! i)" by blast
  then have le: "?s folder_far \<le> ?s (?fs ! i)" by simp
  from i have "i = 0 \<or> i = 1 \<or> i = 2" by auto
  then have "i = 1"
  proof (elim disjE)
    assume "i = 0"
    with le show ?thesis by (simp add: scores_far)
  next
    assume "i = 1"
    then show ?thesis .
  next
    assume "i = 2"
    with le show ?thesis by (simp add: scores_far)
  qed
  with sel show ?thesis by simp
qed


section \<open>Stage 2: the sensitivity gate\<close>

lemma level_strings_distinct:
  "str_general \<noteq> str_sensitive" "str_general \<noteq> str_questionable" "str_general \<noteq> str_explicit"
  "str_sensitive \<noteq> str_questionable" "str_sensitive \<noteq> str_explicit"
  "str_questionable \<noteq> str_explicit"
  by (simp_all add: str_general_def str_sensitive_def str_questionable_def str_explicit_def ascii_def)

lemma allowedLevels_spec:
  "level \<in> {str_general, str_sensitive, str_questionable, str_explicit} \<Longrightarrow>
   set (allowedLevels level) = spec_allowed_set level"
  using level_strings_distinct by (auto simp: allowedLevels_def spec_allowed_set_def)

lemmas stage2_eval =
  stage2_def filteredCharacterFolders_def matchedFolders_def matchFolder_def filterFolder_def
  allowedLevels_def determinedLevel_def extractedCharacters_def or_else_def imagesOf_def
  gallery_mixed_def analysis_general_def mk_image_def List.map_filter_def
  str_general_def str_sensitive_def str_questionable_def str_explicit_def
  name_rei_def toLowerCase_latin1_def js_includes_def ascii_def Let_def

text \<open>
  C1. When the determined level is one of the four labels, Stage 2 returns the matched
  folders, each with exactly those of its images (in order) whose label is in the allowed
  set of the level: general and sensitive both allow general and sensitive, questionable
  allows questionable only, explicit allows explicit only. Under the level general an
  image labelled sensitive is kept and an image labelled explicit is removed.
\<close>

theorem stage2_keeps_allowed_levels:
  "(determinedLevel nsfwAnalysis \<in> {str_general, str_sensitive, str_questionable, str_explicit} \<longrightarrow>
      stage2 lc nsfwAnalysis characterFolders =
        map (\<lambda>folder. folder\<lparr>images :=
                Some (filter (\<lambda>img. nsfwLevel img \<in> spec_allowed_set (determinedLevel nsfwAnalysis))
                        (imagesOf folder))\<rparr>)
          (matchedFolders lc (extractedCharacters nsfwAnalysis) characterFolders)) \<and>
   spec_allowed_set str_general = {str_general, str_sensitive} \<and>
   spec_allowed_set str_sensitive = {str_general, str_sensitive} \<and>
   spec_allowed_set str_questionable = {str_questionable} \<and>
   spec_allowed_set str_explicit = {str_explicit} \<and>
   (img \<in> set (imagesOf folder) \<and> nsfwLevel img = str_sensitive \<longrightarrow>
      img \<in> set (imagesOf (filterFolder str_general folder))) \<and>
   (nsfwLevel img = str_explicit \<longrightarrow>
      img \<notin> set (imagesOf (filterFolder str_general folder)))"
proof (intro conjI impI)
  assume lv: "determinedLevel nsfwAnalysis \<in> {str_general, str_sensitive, str_questionable, str_explicit}"
  show "stage2 lc nsfwAnalysis characterFolders =
        map (\<lambda>folder. folder\<lparr>images :=
                Some (filter (\<lambda>img. nsfwLevel img \<in> spec_allowed_set (determinedLevel nsfwAnalysis))
                        (imagesOf folder))\<rparr>)
          (matchedFolders lc (extractedCharacters nsfwAnalysis) characterFolders)"
    by (simp add: stage2_def filteredCharacterFolders_def filterFolder_def Let_def
                  allowedLevels_spec[OF lv])
next
  show "spec_allowed_set str_general = {str_general, str_sensitive}"
    by (simp add: spec_allowed_set_def)
  show "spec_allowed_set str_sensitive = {str_general, str_sensitive}"
    by (simp add: spec_allowed_set_def)
  show "spec_allowed_set str_questionable = {str_questionable}"
    using level_strings_distinct by (simp add: spec_allowed_set_def)
  show "spec_allowed_set str_explicit = {str_explicit}"
    using level_strings_distinct by (simp add: spec_allowed_set_def)
next
  assume "img \<in> set (imagesOf folder) \<and> nsfwLevel img = str_sensitive"
  then show "img \<in> set (imagesOf (filterFolder str_general folder))"
    by (simp add: filterFolder_def allowedLevels_def Let_def imagesOf_def)
next
  assume "nsfwLevel img = str_explicit"
  then show "img \<notin> set (imagesOf (filterFolder str_general folder))"
    using level_strings_distinct by (simp add: filterFolder_def allowedLevels_def Let_def imagesOf_def)
qed

theorem stage2_keeps_allowed_levels_witness:
  "stage2 toLowerCase_latin1 analysis_general [gallery_mixed] =
     [gallery_mixed\<lparr>images := Some [mk_image (ascii ''1'') str_general, mk_image (ascii ''2'') str_sensitive],
                    matchedCharacterName := Some name_rei\<rparr>] \<and>
   mk_image (ascii ''2'') str_sensitive \<in> set (imagesOf (filterFolder str_general gallery_mixed)) \<and>
   mk_image (ascii ''3'') str_explicit \<notin> set (imagesOf (filterFolder str_general gallery_mixed))"
proof -
  have lv: "determinedLevel analysis_general \<in> {str_general, str_sensitive, str_questionable, str_explicit}"
    by (simp add: determinedLevel_def analysis_general_def or_else_def str_general_def ascii_def)
  have m: "matchedFolders toLowerCase_latin1 (extractedCharacters analysis_general) [gallery_mixed]
             = [gallery_mixed\<lparr>matchedCharacterName := Some name_rei\<rparr>]"
    by (simp add: stage2_eval)
  have l: "determinedLevel analysis_general = str_general"
    by (simp add: determinedLevel_def analysis_general_def or_else_def str_general_def ascii_def)
  have a: "mk_image (ascii ''2'') str_sensitive \<in> set (imagesOf gallery_mixed) \<and>
           nsfwLevel (mk_image (ascii ''2'') str_sensitive) = str_sensitive"
    by (simp add: gallery_mixed_def imagesOf_def mk_image_def)
  have b: "nsfwLevel (mk_image (ascii ''3'') str_explicit) = str_explicit"
    by (simp add: mk_image_def)
  have f: "filter (\<lambda>img. nsfwLevel img \<in> spec_allowed_set str_general)
             (imagesOf (gallery_mixed\<lparr>matchedCharacterName := Some name_rei\<rparr>)) =
           [mk_image (ascii ''1'') str_general, mk_image (ascii ''2'') str_sensitive]"
    using level_strings_distinct
    by (simp add: spec_allowed_set_def gallery_mixed_def imagesOf_def mk_image_def)
  note T2 = stage2_keeps_allowed_levels[of analysis_general toLowerCase_latin1 "[gallery_mixed]"
         "mk_image (ascii ''2'') str_sensitive" gallery_mixed]
  note T3 = stage2_keeps_allowed_levels[of analysis_general toLowerCase_latin1 "[gallery_mixed]"
         "mk_image (ascii ''3'') str_explicit" gallery_mixed]
  from T2 lv have s: "stage2 toLowerCase_latin1 analysis_general [gallery_mixed] =
        map (\<lambda>folder. folder\<lparr>images :=
                Some (filter (\<lambda>img. nsfwLevel img \<in> spec_allowed_set (determinedLevel analysis_general))
                        (imagesOf folder))\<rparr>)
          (matchedFolders toLowerCase_latin1 (extractedCharacters analysis_general) [gallery_mixed])"
    by blast
  from T2 a have k: "mk_image (ascii ''2'') str_sensitive \<in> set (imagesOf (filterFolder str_general gallery_mixed))"
    by blast
  from T3 b have r: "mk_image (ascii ''3'') str_explicit \<notin> set (imagesOf (filterFolder str_general gallery_mixed))"
    by blast
  have "stage2 toLowerCase_latin1 analysis_general [gallery_mixed] =
     [gallery_mixed\<lparr>images := Some [mk_image (ascii ''1'') str_general, mk_image (ascii ''2'') str_sensitive],
                    matchedCharacterName := Some name_rei\<rparr>]"
    unfolding s m l by (simp add: f)
  with k r show ?thesis by blast
qed


section \<open>Stage 2.5: the ten most similar images\<close>

lemma similarity_loop_all_scored:
  "\<forall>(j, img) \<in> set (enumerate i imgs). image_scored cosine g t m j img \<Longrightarrow>
   similarity_loop cosine g t m i imgs acc =
     Inr (acc @ map (\<lambda>(img, s). \<lparr> imageId = image_id img, similarity = s, image = img \<rparr>)
                  (scored_images cosine g t i imgs))"
proof (induction imgs arbitrary: i acc)
  case Nil
  then show ?case by (simp add: scored_images_def)
next
  case (Cons img rest)
  from Cons.prems have here: "image_scored cosine g t m i img"
    and later: "\<forall>(j, img) \<in> set (enumerate (Suc i) rest). image_scored cosine g t m j img"
    by simp_all
  from here obtain url e s where u: "imageUrlOf img = Some url" and e: "g i url = Some e"
    and s: "cosine t e = Inr (Num s)" and ge: "s \<ge> m"
    by (auto simp: image_scored_def split: option.splits sum.splits number.splits)
  show ?case
    using u e s ge Cons.IH[OF later] by (simp add: scored_images_def image_score_def)
qed

lemma scored_images_length [simp]: "length (scored_images cosine g t i imgs) = length imgs"
  by (simp add: scored_images_def)

lemma scored_images_fst: "map fst (scored_images cosine g t i imgs) = imgs"
  by (simp add: scored_images_def comp_def case_prod_unfold)

lemma filterImagesBySimilarity_all_scored:
  assumes t: "getText q = Some t"
    and all: "\<forall>(j, img) \<in> set (enumerate 0 imgs). image_scored cosine g t m j img"
  shows "filterImagesBySimilarity cosine getText g q imgs \<lparr> topK = Some k, minSimilarity = Some m \<rparr> =
           \<lparr> success = True,
             topImages = map (\<lambda>(item, score). \<lparr> imageId = image_id item, similarity = score, image = item \<rparr>)
                           (take k (sort_key (\<lambda>p. - snd p) (scored_images cosine g t 0 imgs))),
             totalProcessed = length imgs \<rparr>"
proof -
  let ?sc = "scored_images cosine g t 0 imgs"
  let ?mk = "\<lambda>(img, s). \<lparr> imageId = image_id img, similarity = s, image = img \<rparr>"
  have loop: "similarity_loop cosine g t m 0 imgs [] = Inr (map ?mk ?sc)"
    using similarity_loop_all_scored[OF all, of "[]"] by simp
  have i: "map image (map ?mk ?sc) = map fst ?sc" by (simp add: comp_def case_prod_unfold)
  have s: "map similarity (map ?mk ?sc) = map snd ?sc" by (simp add: comp_def case_prod_unfold)
  have z: "zip (map fst ?sc) (map snd ?sc) = ?sc" by (rule zip_map_fst_snd)
  show ?thesis
    unfolding filterImagesBySimilarity_def Let_def
    by (simp add: t loop sortBySimilarity_def i s z del: map_map)
qed

lemma sorted_take_drop_le:
  assumes "sorted (map f xs)" "p \<in> set (take n xs)" "r \<in> set (drop n xs)"
  shows "f p \<le> f r"
proof -
  have "sorted (map f (take n xs) @ map f (drop n xs))"
    using assms(1) by (metis append_take_drop_id map_append)
  then have "\<forall>x \<in> set (map f (take n xs)). \<forall>y \<in> set (map f (drop n xs)). x \<le> y"
    by (simp add: sorted_append)
  with assms(2,3) show ?thesis by auto
qed

lemma clipFilterFolder_small:
  "length (imagesOf folder) \<le> 10 \<Longrightarrow> clipFilterFolder cosine outcomes a k folder = folder"
  by (simp add: clipFilterFolder_def)

lemma clipFilterFolder_all_scored:
  assumes big: "length (imagesOf folder) > 10"
    and t: "textOutcome outcomes k (clipQueryOf a) = Some t"
    and all: "\<forall>(j, img) \<in> set (enumerate 0 (imagesOf folder)).
                 image_scored cosine (imageOutcome outcomes k) t 0 j img"
  shows "clipFilterFolder cosine outcomes a k folder =
           folder\<lparr>images := Some (map fst (take 10 (sort_key (\<lambda>p. - snd p)
                      (scored_images cosine (imageOutcome outcomes k) t 0 (imagesOf folder)))))\<rparr>"
proof -
  let ?sc = "scored_images cosine (imageOutcome outcomes k) t 0 (imagesOf folder)"
  let ?top = "take 10 (sort_key (\<lambda>p. - snd p) ?sc)"
  have len: "length ?top = 10" using big by simp
  have ne: "?top \<noteq> []"
  proof
    assume "?top = []"
    then have "length ?top = length ([] :: (Image \<times> real) list)" by (rule arg_cong)
    with len show False by simp
  qed
  have m: "map image (map (\<lambda>(item, score). \<lparr> imageId = image_id item, similarity = score, image = item \<rparr>) ?top)
            = map fst ?top"
    by (simp add: comp_def case_prod_unfold)
  have r: "filterImagesBySimilarity cosine (textOutcome outcomes k) (imageOutcome outcomes k)
             (clipQueryOf a) (imagesOf folder) \<lparr> topK = Some 10, minSimilarity = Some 0 \<rparr> =
           \<lparr> success = True,
             topImages = map (\<lambda>(item, score). \<lparr> imageId = image_id item, similarity = score, image = item \<rparr>) ?top,
             totalProcessed = length (imagesOf folder) \<rparr>"
    using t all
    by (rule filterImagesBySimilarity_all_scored[where getText = "textOutcome outcomes k"
               and q = "clipQueryOf a" and k = 10])
  have pos: "length (map (\<lambda>(item, score). \<lparr> imageId = image_id item, similarity = score, image = item \<rparr>) ?top) > 0"
    using len by (simp only: length_map)
  show ?thesis
    unfolding clipFilterFolder_def Let_def r
    using big pos by (simp add: m del: map_map)
qed

lemma stage2_5_nth:
  assumes "k < length filtered"
    and "clipEnabled env \<and> (truthy (clipQuery a) \<or> truthy (sceneSummary a))"
  shows "stage2_5 env cosine outcomes a filtered ! k =
           clipFilterFolder cosine outcomes a k (filtered ! k)"
  using assms by (simp add: stage2_5_def nth_enumerate_eq)

lemma stage2_5_length [simp]: "length (stage2_5 env cosine outcomes a filtered) = length filtered"
  by (simp add: stage2_5_def)

text \<open>
  C2, as the code has it. A gallery with at most 10 images leaves the stage unchanged.
  When no provider is configured or no query text is there, every gallery leaves it
  unchanged. When the stage runs, the query embedding is obtained, and every image of a
  gallery with more than 10 images is scored (it has a URL, its embedding is obtained,
  and the similarity function returns a number at or above 0), the gallery leaves the
  stage with exactly 10 images: the first 10 of its images sorted by descending
  similarity, images of equal similarity in their original order; no image left out has
  a higher similarity than an image passed on.
\<close>

theorem stage2_5_ten_most_similar:
  "(k < length filtered \<and> length (imagesOf (filtered ! k)) \<le> 10 \<longrightarrow>
      stage2_5 env cosine outcomes a filtered ! k = filtered ! k) \<and>
   (\<not> (clipEnabled env \<and> (truthy (clipQuery a) \<or> truthy (sceneSummary a))) \<longrightarrow>
      stage2_5 env cosine outcomes a filtered = filtered) \<and>
   (k < length filtered \<and> clipEnabled env \<and> (truthy (clipQuery a) \<or> truthy (sceneSummary a)) \<and>
    length (imagesOf (filtered ! k)) > 10 \<and>
    textOutcome outcomes k (clipQueryOf a) = Some t \<and>
    (\<forall>(j, img) \<in> set (enumerate 0 (imagesOf (filtered ! k))).
        image_scored cosine (imageOutcome outcomes k) t 0 j img) \<longrightarrow>
      imagesOf (stage2_5 env cosine outcomes a filtered ! k) =
        map fst (take 10 (ranked cosine (imageOutcome outcomes k) t (imagesOf (filtered ! k)))) \<and>
      length (imagesOf (stage2_5 env cosine outcomes a filtered ! k)) = 10 \<and>
      (\<forall>p \<in> set (take 10 (ranked cosine (imageOutcome outcomes k) t (imagesOf (filtered ! k)))).
       \<forall>r \<in> set (drop 10 (ranked cosine (imageOutcome outcomes k) t (imagesOf (filtered ! k)))).
          snd r \<le> snd p) \<and>
      set (take 10 (ranked cosine (imageOutcome outcomes k) t (imagesOf (filtered ! k)))) \<union>
      set (drop 10 (ranked cosine (imageOutcome outcomes k) t (imagesOf (filtered ! k)))) =
        set (scored_images cosine (imageOutcome outcomes k) t 0 (imagesOf (filtered ! k))))"
proof (intro conjI impI; (elim conjE)?)
  assume k: "k < length filtered" and small: "length (imagesOf (filtered ! k)) \<le> 10"
  show "stage2_5 env cosine outcomes a filtered ! k = filtered ! k"
  proof (cases "clipEnabled env \<and> (truthy (clipQuery a) \<or> truthy (sceneSummary a))")
    case True
    then show ?thesis using k small by (simp add: stage2_5_nth clipFilterFolder_small)
  next
    case False
    then have "stage2_5 env cosine outcomes a filtered = filtered"
      unfolding stage2_5_def by (rule if_not_P)
    then show ?thesis by simp
  qed
next
  assume "\<not> (clipEnabled env \<and> (truthy (clipQuery a) \<or> truthy (sceneSummary a)))"
  then show "stage2_5 env cosine outcomes a filtered = filtered"
    unfolding stage2_5_def by (rule if_not_P)
next
  assume k: "k < length filtered" and en: "clipEnabled env"
    and q: "truthy (clipQuery a) \<or> truthy (sceneSummary a)"
    and big: "length (imagesOf (filtered ! k)) > 10"
    and t: "textOutcome outcomes k (clipQueryOf a) = Some t"
    and all: "\<forall>(j, img) \<in> set (enumerate 0 (imagesOf (filtered ! k))).
                 image_scored cosine (imageOutcome outcomes k) t 0 j img"
  let ?imgs = "imagesOf (filtered ! k)"
  let ?R = "ranked cosine (imageOutcome outcomes k) t ?imgs"
  have out: "stage2_5 env cosine outcomes a filtered ! k =
               (filtered ! k)\<lparr>images := Some (map fst (take 10 ?R))\<rparr>"
    using k en q clipFilterFolder_all_scored[OF big t all]
    by (simp add: stage2_5_nth ranked_def)
  show res: "imagesOf (stage2_5 env cosine outcomes a filtered ! k) = map fst (take 10 ?R)"
    by (simp add: out imagesOf_def)
  have lenR: "length ?R = length ?imgs" by (simp add: ranked_def)
  show "length (imagesOf (stage2_5 env cosine outcomes a filtered ! k)) = 10"
    using big by (simp add: res lenR)
  have srt: "sorted (map (\<lambda>p. - snd p) ?R)" unfolding ranked_def by (rule sorted_sort_key)
  show "\<forall>p \<in> set (take 10 ?R). \<forall>r \<in> set (drop 10 ?R). snd r \<le> snd p"
  proof (intro ballI)
    fix p r assume "p \<in> set (take 10 ?R)" "r \<in> set (drop 10 ?R)"
    from sorted_take_drop_le[OF srt this] show "snd r \<le> snd p" by simp
  qed
  have "set (take 10 ?R) \<union> set (drop 10 ?R) = set ?R"
    by (metis append_take_drop_id set_append)
  then show "set (take 10 ?R) \<union> set (drop 10 ?R) =
        set (scored_images cosine (imageOutcome outcomes k) t 0 ?imgs)"
    by (simp add: ranked_def)
qed

lemma cosine_unit_vectors:
  "computeCosineSimilarity [1, 0] [1, 0] = Inr (Num 1)"
  "computeCosineSimilarity [1, 0] [0, 1] = Inr (Num 0)"
  "computeCosineSimilarity [1, 0] [1, 0, 0] = Inl DimensionsMustMatch"
  by (simp_all add: computeCosineSimilarity_def computeMagnitude_def computeDotProduct_def)

lemma imageUrlOf_mk_image: "imageUrlOf (mk_image i l) = Some (ascii ''https://img/'' @ i)"
  by (simp add: imageUrlOf_def mk_image_def truthy_def ascii_def)

lemma imageUrlOf_no_url_image: "imageUrlOf (no_url_image n) = None"
  by (simp add: imageUrlOf_def no_url_image_def truthy_def)

lemma env_default_enabled: "clipEnabled env_default"
  by (simp add: clipEnabled_def env_default_def or_else_def ascii_def)

lemma env_replicate_no_key_disabled: "\<not> clipEnabled env_replicate_no_key"
  by (simp add: clipEnabled_def env_replicate_no_key_def or_else_def ascii_def)

lemma analysis_general_query: "truthy (clipQuery analysis_general)"
  by (simp add: analysis_general_def truthy_def ascii_def)

lemmas stageC_eval =
  stage2_5_def clipFilterFolder_def filterImagesBySimilarity_def sortBySimilarity_def
  clip_failure_def imagesOf_def gallery_11_def gallery_11_two_without_url_def numbered_images_def
  outcomes_unit_def outcomes_other_dimension_def
  env_default_enabled env_replicate_no_key_disabled analysis_general_query
  imageUrlOf_mk_image imageUrlOf_no_url_image cosine_unit_vectors Let_def

theorem stage2_5_ten_most_similar_witness:
  "imagesOf (stage2_5 env_default computeCosineSimilarity outcomes_unit analysis_general
               [gallery_15, gallery_5] ! 0)
     = numbered_images [0, 2, 4, 6, 8, 10, 12, 14, 1, 3] \<and>
   length (imagesOf (stage2_5 env_default computeCosineSimilarity outcomes_unit analysis_general
                       [gallery_15, gallery_5] ! 0)) = 10 \<and>
   stage2_5 env_default computeCosineSimilarity outcomes_unit analysis_general
     [gallery_15, gallery_5] ! 1 = gallery_5 \<and>
   length (imagesOf gallery_5) = 5"
proof -
  let ?fs = "[gallery_15, gallery_5]"
  let ?imgs = "numbered_images [0, 1, 2, 3, 4, 5, 6, 7, 8, 9, 10, 11, 12, 13, 14]"
  have imgs: "imagesOf gallery_15 = ?imgs" by (simp add: gallery_15_def imagesOf_def)
  have five: "length (imagesOf gallery_5) = 5"
    by (simp add: gallery_5_def imagesOf_def numbered_images_def)
  have h1: "0 < length ?fs" by simp
  have h2: "length (imagesOf (?fs ! 0)) > 10" by (simp add: imgs numbered_images_def)
  have h3: "textOutcome outcomes_unit 0 (clipQueryOf analysis_general) = Some [1, 0]"
    by (simp add: outcomes_unit_def)
  have h4: "\<forall>(j, img) \<in> set (enumerate 0 (imagesOf (?fs ! 0))).
              image_scored computeCosineSimilarity (imageOutcome outcomes_unit 0) [1, 0] 0 j img"
    by (simp add: imgs numbered_images_def image_scored_def outcomes_unit_def
                  imageUrlOf_mk_image cosine_unit_vectors)
  have g1: "1 < length ?fs" by simp
  have g2: "length (imagesOf (?fs ! 1)) \<le> 10" by (simp add: five)
  note T0 = stage2_5_ten_most_similar[of 0 ?fs env_default computeCosineSimilarity
              outcomes_unit analysis_general "[1, 0]"]
  note T1 = stage2_5_ten_most_similar[of 1 ?fs env_default computeCosineSimilarity
              outcomes_unit analysis_general "[1, 0]"]
  from T0 h1 h2 h3 h4 env_default_enabled analysis_general_query
  have top: "imagesOf (stage2_5 env_default computeCosineSimilarity outcomes_unit analysis_general ?fs ! 0)
          = map fst (take 10 (ranked computeCosineSimilarity (imageOutcome outcomes_unit 0) [1, 0]
                                 (imagesOf (?fs ! 0))))"
    and ten: "length (imagesOf (stage2_5 env_default computeCosineSimilarity outcomes_unit
                                  analysis_general ?fs ! 0)) = 10"
    by blast+
  have "map fst (take 10 (ranked computeCosineSimilarity (imageOutcome outcomes_unit 0) [1, 0]
                            (imagesOf (?fs ! 0))))
          = numbered_images [0, 2, 4, 6, 8, 10, 12, 14, 1, 3]"
    by (simp add: imgs ranked_def scored_images_def image_score_def numbered_images_def
                  outcomes_unit_def imageUrlOf_mk_image cosine_unit_vectors)
  with top have first: "imagesOf (stage2_5 env_default computeCosineSimilarity outcomes_unit
                                    analysis_general ?fs ! 0)
                          = numbered_images [0, 2, 4, 6, 8, 10, 12, 14, 1, 3]"
    by simp
  from T1 g1 g2 have second: "stage2_5 env_default computeCosineSimilarity outcomes_unit
                                analysis_general ?fs ! 1 = gallery_5"
    by simp
  from first ten second five show ?thesis by blast
qed

lemma analysis_no_query_falsy:
  "\<not> truthy (clipQuery analysis_no_query)" "\<not> truthy (sceneSummary analysis_no_query)"
  by (simp_all add: analysis_no_query_def truthy_def)

text \<open>
  C2 as stated fails: with every embedding call returning a vector, a gallery of 11
  images leaves the stage with 11 images when the provider \<open>replicate\<close> is configured
  without an API key, when Stage 1 gave no query text, and when the image vectors have
  another dimension than the query vector; and with 9 images when two of its images have
  no URL.
\<close>

theorem stage2_5_not_always_ten_counterexample:
  "length (imagesOf (stage2_5 env_replicate_no_key computeCosineSimilarity outcomes_unit
                       analysis_general [gallery_11] ! 0)) = 11 \<and>
   length (imagesOf (stage2_5 env_default computeCosineSimilarity outcomes_unit
                       analysis_no_query [gallery_11] ! 0)) = 11 \<and>
   length (imagesOf (stage2_5 env_default computeCosineSimilarity outcomes_other_dimension
                       analysis_general [gallery_11] ! 0)) = 11 \<and>
   length (imagesOf (stage2_5 env_default computeCosineSimilarity outcomes_unit
                       analysis_general [gallery_11_two_without_url] ! 0)) = 9"
  by (simp add: stageC_eval analysis_no_query_falsy)


section \<open>Cosine similarity: what rounding keeps and what it does not\<close>

subsection \<open>Rounding to the nearest double\<close>






















subsection \<open>The same functions in exact arithmetic\<close>










subsection \<open>The claim on the rounded functions\<close>








section \<open>Stage 3: what is sent to the final selection\<close>

lemma sublist_js_join: "x \<in> set xs \<Longrightarrow> sublist x (js_join sep xs)"
proof (induction sep xs rule: js_join.induct)
  case (1 sep)
  then show ?case by simp
next
  case (2 sep y)
  then show ?case by simp
next
  case (3 sep y z zs)
  show ?case
  proof (cases "x = y")
    case True
    have "sublist y ([] @ y @ (sep @ js_join sep (z # zs)))" by (rule sublist_appendI)
    with True show ?thesis by simp
  next
    case False
    with 3 have "sublist x (js_join sep (z # zs))" by simp
    moreover have "sublist (js_join sep (z # zs)) ((y @ sep) @ js_join sep (z # zs))"
      by (rule sublist_append_leftI)
    ultimately have "sublist x ((y @ sep) @ js_join sep (z # zs))"
      by (rule sublist_order.order.trans)
    then show ?thesis by simp
  qed
qed

lemma sublist_foldersText_prompt:
  "sublist (js_join (nl @ nl) (map folderText folders)) (buildUnifiedPrompt text folders a)"
proof -
  let ?head = "ascii ''# CHARACTER IMAGE SELECTION'' @ nl @ nl @
         ascii ''## SCENE CONTEXT:'' @ nl @
         template (sceneSummary a) @ nl @ nl @
         ascii ''NSFW Level: '' @ template (appropriateNsfwLevel a) @ nl @
         ascii ''Reasoning: '' @ template (reasoning a) @ nl @ nl @
         ascii ''## AVAILABLE CHARACTERS AND IMAGES (already matched and filtered):'' @ nl"
  have "buildUnifiedPrompt text folders a =
          ?head @ js_join (nl @ nl) (map folderText folders) @ (nl @ nl @ prompt_task)"
    by (simp add: buildUnifiedPrompt_def Let_def)
  then show ?thesis by (simp only: sublist_appendI)
qed

lemma sublist_prompt_task_prompt: "sublist prompt_task (buildUnifiedPrompt text folders a)"
proof -
  obtain pre where "buildUnifiedPrompt text folders a = pre @ prompt_task"
    by (simp add: buildUnifiedPrompt_def Let_def)
  then show ?thesis by (simp only: sublist_append_leftI)
qed

lemma sublist_folderText_prompt:
  assumes "folder \<in> set folders"
  shows "sublist (folderText folder) (buildUnifiedPrompt text folders a)"
proof -
  have "folderText folder \<in> set (map folderText folders)" using assms by simp
  then have "sublist (folderText folder) (js_join (nl @ nl) (map folderText folders))"
    by (rule sublist_js_join)
  then show ?thesis
    using sublist_foldersText_prompt by (rule sublist_order.order.trans)
qed

lemma decimal_0: "decimal 0 = [0x30]"
  by (simp add: decimal.simps)

lemma folderText_no_images:
  "imagesOf folder = [] \<Longrightarrow>
   folderText folder = zero_image_block (template (matchedCharacterName folder)) (cf_name folder)"
  by (simp add: folderText_def zero_image_block_def decimal_0 Let_def ascii_def)

lemma sublist_unmatched_instruction:
  "sublist unmatched_instruction (buildUnifiedPrompt text folders a)"
proof -
  have "sublist unmatched_instruction prompt_task"
    unfolding prompt_task_def by (rule sublist_js_join) (simp add: unmatched_instruction_def)
  then show ?thesis
    using sublist_prompt_task_prompt by (rule sublist_order.order.trans)
qed

text \<open>
  C5, as the code has it. Every folder that leaves Stage 2.5, one with no image too, has
  its block in the prompt of the single final-selection call; the block of a folder without
  images gives its names and \<open>Total Images: 0\<close> and no image entry; the prompt carries the
  instruction to answer \<open>unmatched\<close> for a character with 0 images; and the handler
  returns the characters the collaborator answered, as they are.
\<close>

theorem zero_image_folders_are_sent:
  "(folder \<in> set clipFilteredFolders \<longrightarrow>
      sublist (folderText folder) (buildUnifiedPrompt text clipFilteredFolders nsfwAnalysis)) \<and>
   (imagesOf folder = [] \<longrightarrow>
      folderText folder = zero_image_block (template (matchedCharacterName folder)) (cf_name folder)) \<and>
   sublist unmatched_instruction (buildUnifiedPrompt text clipFilteredFolders nsfwAnalysis) \<and>
   (llm (buildUnifiedPrompt text
           (stage2_5 env cosine outcomes nsfwAnalysis (stage2 lc nsfwAnalysis characterFolders))
           nsfwAnalysis) = ParsedCharacters cs \<longrightarrow>
      select_images lc env cosine outcomes llm text nsfwAnalysis characterFolders = SuccessResponse cs)"
proof (intro conjI impI)
  assume "folder \<in> set clipFilteredFolders"
  then show "sublist (folderText folder) (buildUnifiedPrompt text clipFilteredFolders nsfwAnalysis)"
    by (rule sublist_folderText_prompt)
next
  assume "imagesOf folder = []"
  then show "folderText folder = zero_image_block (template (matchedCharacterName folder)) (cf_name folder)"
    by (rule folderText_no_images)
next
  show "sublist unmatched_instruction (buildUnifiedPrompt text clipFilteredFolders nsfwAnalysis)"
    by (rule sublist_unmatched_instruction)
next
  assume "llm (buildUnifiedPrompt text
           (stage2_5 env cosine outcomes nsfwAnalysis (stage2 lc nsfwAnalysis characterFolders))
           nsfwAnalysis) = ParsedCharacters cs"
  then show "select_images lc env cosine outcomes llm text nsfwAnalysis characterFolders = SuccessResponse cs"
    by (simp add: select_images_def stage3_def Let_def)
qed

lemma stages_explicit_only:
  "stage2_5 env_default computeCosineSimilarity outcomes_unit analysis_general
     (stage2 toLowerCase_latin1 analysis_general [gallery_explicit_only]) =
   [gallery_explicit_only\<lparr>images := Some [], matchedCharacterName := Some name_rei\<rparr>]"
proof -
  have m: "matchedFolders toLowerCase_latin1 (extractedCharacters analysis_general) [gallery_explicit_only]
             = [gallery_explicit_only\<lparr>matchedCharacterName := Some name_rei\<rparr>]"
    by (simp add: matchedFolders_def matchFolder_def extractedCharacters_def analysis_general_def
                  gallery_explicit_only_def List.map_filter_def name_rei_def toLowerCase_latin1_def)
  have l: "determinedLevel analysis_general = str_general"
    by (simp add: determinedLevel_def analysis_general_def or_else_def str_general_def ascii_def)
  have s2: "stage2 toLowerCase_latin1 analysis_general [gallery_explicit_only] =
              [gallery_explicit_only\<lparr>images := Some [], matchedCharacterName := Some name_rei\<rparr>]"
    unfolding stage2_def m l
    using level_strings_distinct
    by (simp add: filteredCharacterFolders_def filterFolder_def allowedLevels_def
                  imagesOf_def gallery_explicit_only_def mk_image_def Let_def)
  show ?thesis
    unfolding s2
    by (simp add: stage2_5_def clipFilterFolder_def imagesOf_def gallery_explicit_only_def Let_def)
qed

theorem zero_image_folders_are_sent_witness:
  "sublist (zero_image_block name_rei name_rei)
     (buildUnifiedPrompt (ascii ''hello'')
        (stage2_5 env_default computeCosineSimilarity outcomes_unit analysis_general
           (stage2 toLowerCase_latin1 analysis_general [gallery_explicit_only]))
        analysis_general) \<and>
   select_images toLowerCase_latin1 env_default computeCosineSimilarity outcomes_unit
     llm_always_matched (ascii ''hello'') analysis_general [gallery_explicit_only]
     = SuccessResponse answer_matched"
proof -
  let ?f = "gallery_explicit_only\<lparr>images := Some [], matchedCharacterName := Some name_rei\<rparr>"
  have h1: "?f \<in> set [?f]" by simp
  have h2: "imagesOf ?f = []" by (simp add: imagesOf_def)
  have h3: "llm_always_matched (buildUnifiedPrompt (ascii ''hello'')
           (stage2_5 env_default computeCosineSimilarity outcomes_unit analysis_general
              (stage2 toLowerCase_latin1 analysis_general [gallery_explicit_only]))
           analysis_general) = ParsedCharacters answer_matched"
    by (simp add: llm_always_matched_def)
  have names: "template (matchedCharacterName ?f) = name_rei" "cf_name ?f = name_rei"
    by (simp_all add: template_def gallery_explicit_only_def)
  note T = zero_image_folders_are_sent[of ?f "[?f]" "ascii ''hello''" analysis_general
             llm_always_matched env_default computeCosineSimilarity outcomes_unit
             toLowerCase_latin1 "[gallery_explicit_only]" answer_matched]
  from T h1 have a: "sublist (folderText ?f) (buildUnifiedPrompt (ascii ''hello'') [?f] analysis_general)"
    by blast
  from T h2 have b: "folderText ?f = zero_image_block name_rei name_rei"
    unfolding names by blast
  from T h3 have c: "select_images toLowerCase_latin1 env_default computeCosineSimilarity outcomes_unit
     llm_always_matched (ascii ''hello'') analysis_general [gallery_explicit_only]
     = SuccessResponse answer_matched" by blast
  from a b c show ?thesis unfolding stages_explicit_only by simp
qed

text \<open>
  C5 as stated fails. The character of the example is matched to a gallery whose only
  image is labelled explicit; under the level general the gallery has no image after
  Stage 2.5. Its block, with \<open>Total Images: 0\<close>, is in the prompt sent to the collaborator,
  and when the collaborator answers \<open>matched\<close> for it, that answer is what the handler
  returns.
\<close>

theorem zero_image_folder_counterexample:
  "imagesOf (stage2_5 env_default computeCosineSimilarity outcomes_unit analysis_general
              (stage2 toLowerCase_latin1 analysis_general [gallery_explicit_only]) ! 0) = [] \<and>
   matchedCharacterName (stage2_5 env_default computeCosineSimilarity outcomes_unit analysis_general
              (stage2 toLowerCase_latin1 analysis_general [gallery_explicit_only]) ! 0) = Some name_rei \<and>
   sublist (zero_image_block name_rei name_rei)
     (buildUnifiedPrompt (ascii ''hello'')
        (stage2_5 env_default computeCosineSimilarity outcomes_unit analysis_general
           (stage2 toLowerCase_latin1 analysis_general [gallery_explicit_only]))
        analysis_general) \<and>
   select_images toLowerCase_latin1 env_default computeCosineSimilarity outcomes_unit
     llm_always_matched (ascii ''hello'') analysis_general [gallery_explicit_only]
     = SuccessResponse answer_matched \<and>
   map cr_status answer_matched = [ascii ''matched'']"
proof -
  let ?f = "gallery_explicit_only\<lparr>images := Some [], matchedCharacterName := Some name_rei\<rparr>"
  have block: "folderText ?f = zero_image_block name_rei name_rei"
    using folderText_no_images[of ?f]
    by (simp add: imagesOf_def template_def gallery_explicit_only_def)
  have "sublist (folderText ?f) (buildUnifiedPrompt (ascii ''hello'') [?f] analysis_general)"
    by (rule sublist_folderText_prompt) simp
  then have sent: "sublist (zero_image_block name_rei name_rei)
                     (buildUnifiedPrompt (ascii ''hello'') [?f] analysis_general)"
    unfolding block .
  have answer: "select_images toLowerCase_latin1 env_default computeCosineSimilarity outcomes_unit
     llm_always_matched (ascii ''hello'') analysis_general [gallery_explicit_only]
     = SuccessResponse answer_matched"
    by (simp add: select_images_def stage3_def llm_always_matched_def Let_def)
  have st: "map cr_status answer_matched = [ascii ''matched'']"
    by (simp add: answer_matched_def)
  from sent answer st show ?thesis
    unfolding stages_explicit_only by (simp add: imagesOf_def)
qed


end
